theory Spec2Isabelle
  imports Main "HOL-Library.Word"
begin

section \<open>Errors, bytes and warnings\<close>

text \<open>
  The exceptions that the storage layer of gufe can raise.  The first two are the
  classes imported from \<^verbatim>\<open>gufe.storage.errors\<close>; the others are Python built-ins
  that escape from the code unchanged.
\<close>

datatype error =
    MissingExternalResourceError
  | ChangedExternalResourceError
  | KeyError
  | OSError
  | ValueError
  | TypeError
  | RecursionError

type_synonym bytes = "8 word list"

text \<open>
  A call returns either the exception it raised or its value.  Where a call can
  warn, the messages handed to \<^verbatim>\<open>warnings.warn\<close> are returned beside the
  value.
\<close>

type_synonym 'a result = "error + 'a"

section \<open>Strings and paths\<close>

text \<open>\<^verbatim>\<open>str.split(sep)\<close> for a one-character separator.\<close>

fun split :: "char \<Rightarrow> string \<Rightarrow> string list" where
  "split c [] = [[]]"
| "split c (x # xs) =
     (if x = c then [] # split c xs
      else (case split c xs of [] \<Rightarrow> [[x]] | w # ws \<Rightarrow> (x # w) # ws))"

text \<open>\<^verbatim>\<open>sep.join(xs)\<close>.\<close>

fun join :: "string \<Rightarrow> string list \<Rightarrow> string" where
  "join sep [] = []"
| "join sep [x] = x"
| "join sep (x # y # ys) = x @ sep @ join sep (y # ys)"

text \<open>
  A \<^verbatim>\<open>pathlib.PosixPath\<close>: whether it starts at the root, and its components.
  Parsing drops empty components and \<^verbatim>\<open>.\<close>; joining with an absolute path
  yields that path.  Two leading slashes, which pathlib keeps apart from one, are
  read as the root, as Linux resolves them.
\<close>

datatype posix_path = PosixPath (is_absolute: bool) (parts: "string list")

definition Path :: "string \<Rightarrow> posix_path" where
  "Path s = PosixPath (s \<noteq> [] \<and> hd s = CHR ''/'')
              (filter (\<lambda>c. c \<noteq> [] \<and> c \<noteq> ''.'') (split (CHR ''/'') s))"

definition joinpath :: "posix_path \<Rightarrow> posix_path \<Rightarrow> posix_path" where
  "joinpath a b =
     (if is_absolute b then b else PosixPath (is_absolute a) (parts a @ parts b))"

definition str_path :: "posix_path \<Rightarrow> string" where
  "str_path p =
     (if is_absolute p then ''/'' @ join ''/'' (parts p)
      else if parts p = [] then ''.'' else join ''/'' (parts p))"

definition parent_dir :: "posix_path \<Rightarrow> posix_path" where
  "parent_dir p = PosixPath (is_absolute p) (butlast (parts p))"

text \<open>
  A path as parsing yields it: no component is empty, is \<^verbatim>\<open>.\<close> or holds a
  slash.
\<close>

definition normal :: "posix_path \<Rightarrow> bool" where
  "normal p = list_all (\<lambda>w. w \<noteq> [] \<and> w \<noteq> ''.'' \<and> CHR ''/'' \<notin> set w) (parts p)"

section \<open>The file system\<close>

text \<open>
  What the file system holds at a path: a directory or a regular file with its
  content.  The root and the working directory (the paths with no component) are
  directories.  Symbolic links and \<^verbatim>\<open>..\<close> are not resolved, and a relative path
  is never the same file as an absolute one.
\<close>

datatype entry = Dir | File bytes

type_synonym filesystem = "posix_path \<Rightarrow> entry option"

definition is_dir :: "filesystem \<Rightarrow> posix_path \<Rightarrow> bool" where
  "is_dir fs p = (parts p = [] \<or> fs p = Some Dir)"

definition path_exists :: "filesystem \<Rightarrow> posix_path \<Rightarrow> bool" where
  "path_exists fs p = (parts p = [] \<or> fs p \<noteq> None)"

text \<open>
  \<^verbatim>\<open>directory.mkdir(parents=True, exist_ok=True)\<close>: every prefix of the path
  that is missing is created, an existing directory is kept, and a regular file in
  the way raises \<^verbatim>\<open>FileExistsError\<close> or \<^verbatim>\<open>NotADirectoryError\<close>, both
  \<^verbatim>\<open>OSError\<close>s.
\<close>

fun mkdir_from :: "filesystem \<Rightarrow> bool \<Rightarrow> string list \<Rightarrow> string list \<Rightarrow> filesystem result" where
  "mkdir_from fs a pre [] = Inr fs"
| "mkdir_from fs a pre (c # cs) =
     (case fs (PosixPath a (pre @ [c])) of
        None \<Rightarrow> mkdir_from (fs(PosixPath a (pre @ [c]) \<mapsto> Dir)) a (pre @ [c]) cs
      | Some Dir \<Rightarrow> mkdir_from fs a (pre @ [c]) cs
      | Some (File b) \<Rightarrow> Inl OSError)"

definition mkdir :: "filesystem \<Rightarrow> posix_path \<Rightarrow> filesystem result" where
  "mkdir fs d = mkdir_from fs (is_absolute d) [] (parts d)"

text \<open>
  \<^verbatim>\<open>open(path, mode='wb')\<close> followed by \<^verbatim>\<open>f.write(byte_data)\<close>: fails on a
  directory and under a missing directory, and replaces the content otherwise.
\<close>

definition open_wb :: "filesystem \<Rightarrow> posix_path \<Rightarrow> bytes \<Rightarrow> filesystem result" where
  "open_wb fs p byte_data =
     (if is_dir fs p then Inl OSError
      else if \<not> is_dir fs (parent_dir p) then Inl OSError
      else Inr (fs(p \<mapsto> File byte_data)))"

text \<open>\<^verbatim>\<open>open(path, 'rb')\<close>; the stream is the content it will read.\<close>

definition open_rb :: "filesystem \<Rightarrow> posix_path \<Rightarrow> bytes result" where
  "open_rb fs p =
     (if is_dir fs p then Inl OSError
      else (case fs p of Some (File b) \<Rightarrow> Inr b | _ \<Rightarrow> Inl OSError))"

text \<open>\<^verbatim>\<open>path.unlink()\<close>.\<close>

definition unlink :: "filesystem \<Rightarrow> posix_path \<Rightarrow> filesystem result" where
  "unlink fs p =
     (if is_dir fs p then Inl OSError
      else (case fs p of Some (File b) \<Rightarrow> Inr (fs(p := None)) | _ \<Rightarrow> Inl OSError))"

section \<open>External storage\<close>

text \<open>
  The two subclasses of \<^verbatim>\<open>ExternalStorage\<close>.  A \<^verbatim>\<open>FileStorage\<close> is its
  \<^verbatim>\<open>root_dir\<close> together with the file system it works on; a
  \<^verbatim>\<open>MemoryStorage\<close> is its \<^verbatim>\<open>_data\<close> dictionary.
\<close>

datatype storage =
    FileStorage (root_dir: posix_path) (files: filesystem)
  | MemoryStorage (data: "string \<Rightarrow> bytes option")

text \<open>The wrapper around a stream that \<^verbatim>\<open>load_stream\<close> returns.\<close>

datatype 'a ForceContext = ForceContext 'a


subsection \<open>The methods of the subclasses\<close>

definition as_path :: "posix_path \<Rightarrow> string \<Rightarrow> posix_path" where
  "as_path root location = joinpath root (Path location)"

fun exists' :: "storage \<Rightarrow> string \<Rightarrow> bool" where
  "exists' (FileStorage root fs) location = path_exists fs (as_path root location)"
| "exists' (MemoryStorage d) location = (d location \<noteq> None)"

text \<open>
  \<^verbatim>\<open>FileStorage._load_stream\<close> turns every \<^verbatim>\<open>OSError\<close> into a
  \<^verbatim>\<open>MissingExternalResourceError\<close>; \<^verbatim>\<open>MemoryStorage._load_stream\<close> indexes
  the dictionary, which raises \<^verbatim>\<open>KeyError\<close> on an absent key.
\<close>

fun load_stream' :: "storage \<Rightarrow> string \<Rightarrow> bytes result" where
  "load_stream' (FileStorage root fs) location =
     (case open_rb fs (as_path root location) of
        Inl e \<Rightarrow> Inl MissingExternalResourceError
      | Inr stream \<Rightarrow> Inr stream)"
| "load_stream' (MemoryStorage d) location =
     (case d location of None \<Rightarrow> Inl KeyError | Some byte_data \<Rightarrow> Inr byte_data)"

fun get_filename' :: "storage \<Rightarrow> string \<Rightarrow> string option" where
  "get_filename' (FileStorage root fs) location = Some (str_path (as_path root location))"
| "get_filename' (MemoryStorage d) location = None"

fun delete' :: "storage \<Rightarrow> string \<Rightarrow> unit result \<times> storage" where
  "delete' (FileStorage root fs) location =
     (if exists' (FileStorage root fs) location then
        (case unlink fs (as_path root location) of
           Inl e \<Rightarrow> (Inl e, FileStorage root fs)
         | Inr fs' \<Rightarrow> (Inr (), FileStorage root fs'))
      else (Inl MissingExternalResourceError, FileStorage root fs))"
| "delete' (MemoryStorage d) location =
     (case d location of
        None \<Rightarrow> (Inl MissingExternalResourceError, MemoryStorage d)
      | Some b \<Rightarrow> (Inr (), MemoryStorage (d(location := None))))"

subsection \<open>The methods of the base class\<close>

text \<open>
  \<^verbatim>\<open>hashlib.md5\<close> is a parameter \<open>md5\<close> of the model: the function from the
  bytes read to their hexdigest.
\<close>

definition get_hexdigest :: "(bytes \<Rightarrow> string) \<Rightarrow> storage \<Rightarrow> string \<Rightarrow> string result" where
  "get_hexdigest md5 st location =
     (case load_stream' st location of
        Inl e \<Rightarrow> Inl e
      | Inr filelike \<Rightarrow> Inr (md5 filelike))"

definition get_metadata :: "(bytes \<Rightarrow> string) \<Rightarrow> storage \<Rightarrow> string \<Rightarrow> string result" where
  "get_metadata md5 st location = get_hexdigest md5 st location"

text \<open>The class variable \<^verbatim>\<open>ExternalStorage.allow_changed\<close> as the class declares it.\<close>

definition allow_changed_default :: bool where
  "allow_changed_default = False"

definition mismatch_msg :: "string \<Rightarrow> string" where
  "mismatch_msg location =
     ''Hash mismatch for '' @ location @ '': this object may have changed.''"

text \<open>
  \<^verbatim>\<open>validate\<close> returns the list of warnings it emitted.  \<open>allow_changed\<close> is
  the class variable \<^verbatim>\<open>ExternalStorage.allow_changed\<close>, \<open>False\<close> unless it has
  been set.
\<close>

definition validate ::
  "(bytes \<Rightarrow> string) \<Rightarrow> bool \<Rightarrow> storage \<Rightarrow> string \<Rightarrow> string \<Rightarrow> string list result" where
  "validate md5 allow_changed st location metadata =
     (case get_metadata md5 st location of
        Inl e \<Rightarrow> Inl e
      | Inr m \<Rightarrow>
          if \<not> (m = metadata) then
            (if \<not> allow_changed then Inl ChangedExternalResourceError
             else Inr [mismatch_msg location])
          else Inr [])"

definition get_filename ::
  "(bytes \<Rightarrow> string) \<Rightarrow> bool \<Rightarrow> storage \<Rightarrow> string \<Rightarrow> string \<Rightarrow>
   (string option \<times> string list) result" where
  "get_filename md5 allow_changed st location metadata =
     (case validate md5 allow_changed st location metadata of
        Inl e \<Rightarrow> Inl e
      | Inr ws \<Rightarrow> Inr (get_filename' st location, ws))"

definition load_stream ::
  "(bytes \<Rightarrow> string) \<Rightarrow> bool \<Rightarrow> storage \<Rightarrow> string \<Rightarrow> string \<Rightarrow>
   (bytes ForceContext \<times> string list) result" where
  "load_stream md5 allow_changed st location metadata =
     (case validate md5 allow_changed st location metadata of
        Inl e \<Rightarrow> Inl e
      | Inr ws \<Rightarrow>
          (case load_stream' st location of
             Inl e \<Rightarrow> Inl e
           | Inr stream \<Rightarrow> Inr (ForceContext stream, ws)))"

definition delete :: "storage \<Rightarrow> string \<Rightarrow> unit result \<times> storage" where
  "delete st location = delete' st location"

definition exists :: "storage \<Rightarrow> string \<Rightarrow> bool" where
  "exists st location = exists' st location"

subsection \<open>Storing\<close>

text \<open>
  \<^verbatim>\<open>_store\<close> changes the storage even when it raises afterwards, so the new
  storage is returned beside the outcome.  \<^verbatim>\<open>FileStorage._store\<close> asks for the
  metadata of \<^verbatim>\<open>str(path)\<close>, the location already joined to the root, and
  returns that string as the location; \<^verbatim>\<open>MemoryStorage._store\<close> uses the
  location it was given.
\<close>

fun store' ::
  "(bytes \<Rightarrow> string) \<Rightarrow> storage \<Rightarrow> string \<Rightarrow> bytes \<Rightarrow> (string \<times> string) result \<times> storage" where
  "store' md5 (FileStorage root fs) location byte_data =
     (let path = as_path root location;
          directory = parent_dir path
      in case mkdir fs directory of
           Inl e \<Rightarrow> (Inl e, FileStorage root fs)
         | Inr fs1 \<Rightarrow>
             (case open_wb fs1 path byte_data of
                Inl e \<Rightarrow> (Inl e, FileStorage root fs1)
              | Inr fs2 \<Rightarrow>
                  (case get_metadata md5 (FileStorage root fs2) (str_path path) of
                     Inl e \<Rightarrow> (Inl e, FileStorage root fs2)
                   | Inr m \<Rightarrow> (Inr (str_path path, m), FileStorage root fs2))))"
| "store' md5 (MemoryStorage d) location byte_data =
     (let d' = d(location \<mapsto> byte_data)
      in case get_metadata md5 (MemoryStorage d') location of
           Inl e \<Rightarrow> (Inl e, MemoryStorage d')
         | Inr m \<Rightarrow> (Inr (location, m), MemoryStorage d'))"

definition store ::
  "(bytes \<Rightarrow> string) \<Rightarrow> storage \<Rightarrow> string \<Rightarrow> bytes \<Rightarrow> (string \<times> string) result \<times> storage" where
  "store md5 st location byte_data = store' md5 st location byte_data"

section \<open>Tokenizable objects and their storage keys\<close>

text \<open>
  Modelled from the spec: \<^verbatim>\<open>GufeTokenizable\<close> and the helpers of
  \<^verbatim>\<open>gufe.base\<close> (\<^verbatim>\<open>is_gufe_obj\<close>, \<^verbatim>\<open>modify_dependencies\<close>,
  \<^verbatim>\<open>key_decode_dependencies\<close>) are not among the sources.  A tokenizable object
  is its key \<^verbatim>\<open><ClassName>-<token>\<close>, the bytes of
  \<^verbatim>\<open>json.dumps(o.to_keyed_dict(), sort_keys=True).encode('utf-8')\<close>, and the
  tokenizable objects that its shallow dict holds.
\<close>

datatype gufe = GufeTokenizable (key: string) (keyed_json: bytes) (dependencies: "gufe list")

text \<open>
  \<^verbatim>\<open>get_all_gufe_objs\<close>: the object and every object met while the shallow
  dicts are walked, as a set.  The list is one enumeration of that set.
\<close>

fun walk :: "gufe \<Rightarrow> gufe list" where
  "walk (GufeTokenizable k j ds) = GufeTokenizable k j ds # concat (map walk ds)"

definition get_all_gufe_objs :: "gufe \<Rightarrow> gufe list" where
  "get_all_gufe_objs obj = remdups (walk obj)"

text \<open>
  \<^verbatim>\<open>_gufe_key_to_storage_key\<close>.  The tuple assignment
  \<^verbatim>\<open>cls, token = key.split('-')\<close> raises \<^verbatim>\<open>ValueError\<close> unless the key
  has exactly one hyphen.
\<close>

definition gufe_key_to_storage_key :: "string \<Rightarrow> string \<Rightarrow> string result" where
  "gufe_key_to_storage_key prefix gufe_key =
     (let prefix' = split (CHR ''/'') prefix
      in case split (CHR ''-'') gufe_key of
           [cls, token] \<Rightarrow> Inr (join ''/'' (prefix' @ [cls, token @ ''.json'']))
         | _ \<Rightarrow> Inl ValueError)"

section \<open>Storing an object graph\<close>

text \<open>
  The loop of \<^verbatim>\<open>_store_gufe_tokenizable\<close> over a list of objects.  The result
  server is not among the sources; its membership test and its
  \<^verbatim>\<open>store_bytes\<close> are the parameters \<open>contains\<close> and \<open>store_bytes\<close>, the
  latter returning the server as it is after the call, also when it raised.  Beside
  the outcome and the server, the loop returns the keys it called
  \<^verbatim>\<open>store_bytes\<close> with, in order.
\<close>

fun store_objs ::
  "('srv \<Rightarrow> string \<Rightarrow> bool) \<Rightarrow> ('srv \<Rightarrow> string \<Rightarrow> bytes \<Rightarrow> unit result \<times> 'srv) \<Rightarrow>
   string \<Rightarrow> gufe list \<Rightarrow> 'srv \<Rightarrow> unit result \<times> 'srv \<times> string list" where
  "store_objs contains store_bytes prefix [] rs = (Inr (), rs, [])"
| "store_objs contains store_bytes prefix (ob # obs) rs =
     (case gufe_key_to_storage_key prefix (key ob) of
        Inl e \<Rightarrow> (Inl e, rs, [])
      | Inr k \<Rightarrow>
          if \<not> contains rs k then
            (case store_bytes rs k (keyed_json ob) of
               (Inl e, rs') \<Rightarrow> (Inl e, rs', [k])
             | (Inr u, rs') \<Rightarrow>
                 (case store_objs contains store_bytes prefix obs rs' of
                    (r, rs'', written) \<Rightarrow> (r, rs'', k # written)))
          else store_objs contains store_bytes prefix obs rs)"

definition store_gufe_tokenizable ::
  "('srv \<Rightarrow> string \<Rightarrow> bool) \<Rightarrow> ('srv \<Rightarrow> string \<Rightarrow> bytes \<Rightarrow> unit result \<times> 'srv) \<Rightarrow>
   string \<Rightarrow> gufe \<Rightarrow> 'srv \<Rightarrow> unit result \<times> 'srv \<times> string list" where
  "store_gufe_tokenizable contains store_bytes prefix obj rs =
     store_objs contains store_bytes prefix (get_all_gufe_objs obj) rs"

definition store_transformation ::
  "('srv \<Rightarrow> string \<Rightarrow> bool) \<Rightarrow> ('srv \<Rightarrow> string \<Rightarrow> bytes \<Rightarrow> unit result \<times> 'srv) \<Rightarrow>
   gufe \<Rightarrow> 'srv \<Rightarrow> unit result \<times> 'srv \<times> string list" where
  "store_transformation contains store_bytes transformation rs =
     store_gufe_tokenizable contains store_bytes ''setup'' transformation rs"

text \<open>The storage keys of the objects of a graph.\<close>

definition storage_keys :: "string \<Rightarrow> gufe \<Rightarrow> string set" where
  "storage_keys prefix obj =
     {k. \<exists>ob \<in> set (get_all_gufe_objs obj). gufe_key_to_storage_key prefix (key ob) = Inr k}"

section \<open>Loading an object graph\<close>










text \<open>
  An identifier handed to a container: a string, or any other hashable object.
\<close>

datatype 'o item = Str string | Obj 'o











section \<open>The result hierarchy\<close>

text \<open>Python's \<^verbatim>\<open>str\<close> of an integer.\<close>

definition digit_char :: "nat \<Rightarrow> char" where
  "digit_char d = ''0123456789'' ! d"

function str_nat :: "nat \<Rightarrow> string" where
  "str_nat n = (if n < 10 then [digit_char n] else str_nat (n div 10) @ [digit_char (n mod 10)])"
  by pat_completeness auto
termination
  by (relation "measure id") auto

declare str_nat.simps [simp del]

definition str_int :: "int \<Rightarrow> string" where
  "str_int i = (if i < 0 then CHR ''-'' # str_nat (nat (- i)) else str_nat (nat i))"

text \<open>
  The four classes of containers.  A container object is its class, the address
  of its parent, its \<^verbatim>\<open>_path_component\<close> and its \<^verbatim>\<open>_cache\<close>, which maps a path
  component to the address of a child.  The objects live in a list, the address of
  an object being its position: an object is allocated at the end, so a parent
  stands before its children, and a \<^verbatim>\<open>ResultClient\<close> is its own parent.  The
  attribute that keeps the identifier itself (\<^verbatim>\<open>transformation\<close>,
  \<^verbatim>\<open>clone\<close>, \<^verbatim>\<open>extension\<close>) is read nowhere and is left out.
\<close>

datatype kind = ResultClient | TransformationResult | CloneResult | ExtensionResult

record container =
  cls :: kind
  parent :: nat
  path_component :: string
  cache :: "string \<Rightarrow> nat option"

type_synonym heap = "container list"

text \<open>
  \<^verbatim>\<open>_to_path_component\<close>, a static method that \<^verbatim>\<open>CloneResult\<close> and
  \<^verbatim>\<open>ExtensionResult\<close> override with \<^verbatim>\<open>str(item)\<close>.  The built-ins
  \<^verbatim>\<open>hash\<close> and \<^verbatim>\<open>str\<close> on objects other than strings are the parameters
  \<open>hash\<close> and \<open>str\<close>: \<open>hash\<close> is the hash function of the running process.
\<close>

fun str_item :: "('o \<Rightarrow> string) \<Rightarrow> 'o item \<Rightarrow> string" where
  "str_item str (Str s) = s"
| "str_item str (Obj x) = str x"

fun to_path_component :: "('o \<Rightarrow> int) \<Rightarrow> ('o \<Rightarrow> string) \<Rightarrow> kind \<Rightarrow> 'o item \<Rightarrow> string" where
  "to_path_component hash str CloneResult item = str_item str item"
| "to_path_component hash str ExtensionResult item = str_item str item"
| "to_path_component hash str k (Str s) = s"
| "to_path_component hash str k (Obj x) = str_int (hash x)"

text \<open>
  \<^verbatim>\<open>_ResultContainer.__init__\<close>: the new object converts the identifier with the
  method of its own class.  \<^verbatim>\<open>ExtensionResult.__init__\<close> passes
  \<^verbatim>\<open>str(extension)\<close> on.
\<close>

definition init :: "('o \<Rightarrow> int) \<Rightarrow> ('o \<Rightarrow> string) \<Rightarrow> kind \<Rightarrow> nat \<Rightarrow> 'o item \<Rightarrow> container" where
  "init hash str k par path_component' =
     \<lparr>cls = k, parent = par,
      path_component = to_path_component hash str k path_component',
      cache = Map.empty\<rparr>"

definition new_ResultClient :: "('o \<Rightarrow> int) \<Rightarrow> ('o \<Rightarrow> string) \<Rightarrow> 'o \<Rightarrow> heap \<Rightarrow> nat \<times> heap" where
  "new_ResultClient hash str none h =
     (length h, h @ [init hash str ResultClient (length h) (Obj none)])"

definition new_TransformationResult ::
  "('o \<Rightarrow> int) \<Rightarrow> ('o \<Rightarrow> string) \<Rightarrow> heap \<Rightarrow> nat \<Rightarrow> 'o item \<Rightarrow> nat \<times> heap" where
  "new_TransformationResult hash str h par transformation =
     (length h, h @ [init hash str TransformationResult par transformation])"

definition new_CloneResult ::
  "('o \<Rightarrow> int) \<Rightarrow> ('o \<Rightarrow> string) \<Rightarrow> heap \<Rightarrow> nat \<Rightarrow> 'o item \<Rightarrow> nat \<times> heap" where
  "new_CloneResult hash str h par clone = (length h, h @ [init hash str CloneResult par clone])"

definition new_ExtensionResult ::
  "('o \<Rightarrow> int) \<Rightarrow> ('o \<Rightarrow> string) \<Rightarrow> heap \<Rightarrow> nat \<Rightarrow> 'o item \<Rightarrow> nat \<times> heap" where
  "new_ExtensionResult hash str h par extension =
     (length h, h @ [init hash str ExtensionResult par (Str (str_item str extension))])"

text \<open>
  The property \<^verbatim>\<open>path\<close>: the literal for a \<^verbatim>\<open>ResultClient\<close>, and the path
  of the parent, a slash and the component otherwise.  A chain of parents that
  never reaches a \<^verbatim>\<open>ResultClient\<close> ends in \<^verbatim>\<open>RecursionError\<close>.
\<close>

function path :: "heap \<Rightarrow> nat \<Rightarrow> string result" where
  "path h a =
     (if cls (h ! a) = ResultClient then Inr ''transformations''
      else if parent (h ! a) < a then
        (case path h (parent (h ! a)) of
           Inl e \<Rightarrow> Inl e
         | Inr p \<Rightarrow> Inr (p @ ''/'' @ path_component (h ! a)))
      else Inl RecursionError)"
  by pat_completeness auto
termination
  by (relation "measure snd") auto

declare path.simps [simp del]

text \<open>
  What indexing returns: what the \<^verbatim>\<open>load_stream\<close> of the result server
  returned, or a container.
\<close>

datatype 'f lookup = Stream 'f | Container nat

definition stream_of :: "'f result \<Rightarrow> 'f lookup result" where
  "stream_of r = (case r of Inl e \<Rightarrow> Inl e | Inr f \<Rightarrow> Inr (Stream f))"

text \<open>
  \<^verbatim>\<open>_load_next_level\<close> of the three classes whose children are containers, and of
  \<^verbatim>\<open>ExtensionResult\<close>, which loads the file under its path; there the
  concatenation raises \<^verbatim>\<open>TypeError\<close> for a file name that is not a string.
  The result server is reached through its two methods: \<open>contains\<close> is its
  membership test and \<open>load\<close> its \<^verbatim>\<open>load_stream\<close>.
\<close>

definition load_next_level ::
  "('o \<Rightarrow> int) \<Rightarrow> ('o \<Rightarrow> string) \<Rightarrow> heap \<Rightarrow> nat \<Rightarrow> 'o item \<Rightarrow> nat \<times> heap" where
  "load_next_level hash str h a item =
     (case cls (h ! a) of
        ResultClient \<Rightarrow> new_TransformationResult hash str h a item
      | TransformationResult \<Rightarrow> new_CloneResult hash str h a item
      | _ \<Rightarrow> new_ExtensionResult hash str h a item)"

definition ExtensionResult_load_next_level ::
  "('o item \<Rightarrow> bool option \<Rightarrow> 'f result) \<Rightarrow> heap \<Rightarrow> nat \<Rightarrow> 'o item \<Rightarrow> 'f lookup result" where
  "ExtensionResult_load_next_level load h a filename =
     (case path h a of
        Inl e \<Rightarrow> Inl e
      | Inr p \<Rightarrow>
          (case filename of
             Obj x \<Rightarrow> Inl TypeError
           | Str s \<Rightarrow> stream_of (load (Str (p @ ''/'' @ s)) None)))"

text \<open>\<^verbatim>\<open>_ResultContainer.__getitem__\<close>.\<close>

definition ResultContainer_getitem ::
  "('o item \<Rightarrow> bool) \<Rightarrow> ('o item \<Rightarrow> bool option \<Rightarrow> 'f result) \<Rightarrow>
   ('o \<Rightarrow> int) \<Rightarrow> ('o \<Rightarrow> string) \<Rightarrow> heap \<Rightarrow> nat \<Rightarrow> 'o item \<Rightarrow> 'f lookup result \<times> heap" where
  "ResultContainer_getitem contains load hash str h a item =
     (if contains item then (stream_of (load item None), h)
      else
        (let hash_item = to_path_component hash str (cls (h ! a)) item
         in case cache (h ! a) hash_item of
              None \<Rightarrow>
                (case load_next_level hash str h a item of
                   (c, h') \<Rightarrow>
                     (Inr (Container c),
                      h'[a := (h' ! a)\<lparr>cache := (cache (h' ! a))(hash_item \<mapsto> c)\<rparr>]))
            | Some c \<Rightarrow> (Inr (Container c), h)))"

text \<open>\<^verbatim>\<open>ExtensionResult.__getitem__\<close>.\<close>

definition ExtensionResult_getitem ::
  "('o item \<Rightarrow> bool option \<Rightarrow> 'f result) \<Rightarrow> heap \<Rightarrow> nat \<Rightarrow> 'o item \<Rightarrow> 'f lookup result \<times> heap" where
  "ExtensionResult_getitem load h a filename = (ExtensionResult_load_next_level load h a filename, h)"

text \<open>Indexing an object calls the method of its class.\<close>

definition getitem ::
  "('o item \<Rightarrow> bool) \<Rightarrow> ('o item \<Rightarrow> bool option \<Rightarrow> 'f result) \<Rightarrow>
   ('o \<Rightarrow> int) \<Rightarrow> ('o \<Rightarrow> string) \<Rightarrow> heap \<Rightarrow> nat \<Rightarrow> 'o item \<Rightarrow> 'f lookup result \<times> heap" where
  "getitem contains load hash str h a item =
     (if cls (h ! a) = ExtensionResult then ExtensionResult_getitem load h a item
      else ResultContainer_getitem contains load hash str h a item)"

text \<open>\<^verbatim>\<open>__truediv__\<close>, inherited by every class: \<^verbatim>\<open>return self[item]\<close>.\<close>

definition truediv ::
  "('o item \<Rightarrow> bool) \<Rightarrow> ('o item \<Rightarrow> bool option \<Rightarrow> 'f result) \<Rightarrow>
   ('o \<Rightarrow> int) \<Rightarrow> ('o \<Rightarrow> string) \<Rightarrow> heap \<Rightarrow> nat \<Rightarrow> 'o item \<Rightarrow> 'f lookup result \<times> heap" where
  "truediv contains load hash str h a item = getitem contains load hash str h a item"

text \<open>A heap in which every object but a \<^verbatim>\<open>ResultClient\<close> stands after its parent.\<close>

definition allocated_in_order :: "heap \<Rightarrow> bool" where
  "allocated_in_order h =
     list_all (\<lambda>a. cls (h ! a) = ResultClient \<or> parent (h ! a) < a) [0..<length h]"

text \<open>
  Indexing in a chain, \<^verbatim>\<open>node[i1][i2]...\<close>: a stream in the middle of the
  chain cannot be indexed, which is a \<^verbatim>\<open>TypeError\<close>.
\<close>

fun traverse ::
  "('o item \<Rightarrow> bool) \<Rightarrow> ('o item \<Rightarrow> bool option \<Rightarrow> 'f result) \<Rightarrow>
   ('o \<Rightarrow> int) \<Rightarrow> ('o \<Rightarrow> string) \<Rightarrow> heap \<Rightarrow> nat \<Rightarrow> 'o item list \<Rightarrow> 'f lookup result \<times> heap" where
  "traverse contains load hash str h a [] = (Inr (Container a), h)"
| "traverse contains load hash str h a (i # items) =
     (case getitem contains load hash str h a i of
        (Inl e, h') \<Rightarrow> (Inl e, h')
      | (Inr (Stream f), h') \<Rightarrow> (if items = [] then Inr (Stream f) else Inl TypeError, h')
      | (Inr (Container c), h') \<Rightarrow> traverse contains load hash str h' c items)"

text \<open>
  A later state of the heap: the objects that were there have their class, parent
  and path component, and every entry that their caches had.
\<close>

definition extends :: "heap \<Rightarrow> heap \<Rightarrow> bool" where
  "extends h h' =
     (length h \<le> length h' \<and>
      (\<forall>a < length h.
         cls (h' ! a) = cls (h ! a) \<and> parent (h' ! a) = parent (h ! a)
         \<and> path_component (h' ! a) = path_component (h ! a)
         \<and> (\<forall>k c. cache (h ! a) k = Some c \<longrightarrow> cache (h' ! a) k = Some c)))"

text \<open>A heap whose caches hold children: objects allocated later, with the owner as parent.\<close>

definition cache_ok :: "heap \<Rightarrow> bool" where
  "cache_ok h =
     (\<forall>a < length h. \<forall>k c. cache (h ! a) k = Some c \<longrightarrow>
        c < length h \<and> a < c \<and> parent (h ! c) = a \<and> cls (h ! c) \<noteq> ResultClient)"

text \<open>The path reached from a path through a list of components.\<close>

fun below :: "string \<Rightarrow> string list \<Rightarrow> string" where
  "below p [] = p"
| "below p (s # segs) = below (p @ ''/'' @ s) segs"

text \<open>The number that a string of decimal digits denotes.\<close>

definition nat_of_digits :: "string \<Rightarrow> nat" where
  "nat_of_digits ds = foldl (\<lambda>n c. 10 * n + (of_char c - of_char (CHR ''0''))) 0 ds"

section \<open>The result server\<close>

text \<open>
  What the loop of \<^verbatim>\<open>_store_gufe_tokenizable\<close> relies on in a result server:
  a call of \<^verbatim>\<open>store_bytes\<close> removes no location, a call that returns has
  made its location present, and no call makes any other location present.
\<close>

definition keeps ::
  "('srv \<Rightarrow> string \<Rightarrow> bool) \<Rightarrow> ('srv \<Rightarrow> string \<Rightarrow> bytes \<Rightarrow> unit result \<times> 'srv) \<Rightarrow> bool" where
  "keeps contains store_bytes =
     (\<forall>rs k d r rs' k'. store_bytes rs k d = (r, rs') \<longrightarrow> contains rs k' \<longrightarrow> contains rs' k')"

definition adds ::
  "('srv \<Rightarrow> string \<Rightarrow> bool) \<Rightarrow> ('srv \<Rightarrow> string \<Rightarrow> bytes \<Rightarrow> unit result \<times> 'srv) \<Rightarrow> bool" where
  "adds contains store_bytes =
     (\<forall>rs k d rs'. store_bytes rs k d = (Inr (), rs') \<longrightarrow> contains rs' k)"

definition only_adds ::
  "('srv \<Rightarrow> string \<Rightarrow> bool) \<Rightarrow> ('srv \<Rightarrow> string \<Rightarrow> bytes \<Rightarrow> unit result \<times> 'srv) \<Rightarrow> bool" where
  "only_adds contains store_bytes =
     (\<forall>rs k d r rs' k'. store_bytes rs k d = (r, rs') \<longrightarrow> contains rs' k' \<longrightarrow>
        k' = k \<or> contains rs k')"

text \<open>
  Modelled from the spec: the class \<^verbatim>\<open>ResultServer\<close>
  (\<^verbatim>\<open>gufe/storage/resultserver.py\<close>) is not among the sources.  Where a server
  is needed to run the code on, it is the in-memory backend used directly, its
  state being the dictionary: a location is present when the backend has it,
  \<^verbatim>\<open>store_bytes\<close> is the \<^verbatim>\<open>store\<close> of the backend, and \<^verbatim>\<open>load_stream\<close>
  wraps the stored bytes and fails with the error for a missing resource where
  there are none.  No identifier other than a string is a location.
\<close>

definition memory_contains :: "(string \<Rightarrow> bytes option) \<Rightarrow> string \<Rightarrow> bool" where
  "memory_contains d location = exists (MemoryStorage d) location"

definition memory_store_bytes ::
  "(bytes \<Rightarrow> string) \<Rightarrow> (string \<Rightarrow> bytes option) \<Rightarrow> string \<Rightarrow> bytes \<Rightarrow>
   unit result \<times> (string \<Rightarrow> bytes option)" where
  "memory_store_bytes md5 d location byte_data =
     (case store md5 (MemoryStorage d) location byte_data of
        (Inl e, st) \<Rightarrow> (Inl e, data st)
      | (Inr located, st) \<Rightarrow> (Inr (), data st))"

fun memory_contains_item :: "(string \<Rightarrow> bytes option) \<Rightarrow> 'o item \<Rightarrow> bool" where
  "memory_contains_item d (Str s) = memory_contains d s"
| "memory_contains_item d (Obj x) = False"

fun memory_load_stream ::
  "(string \<Rightarrow> bytes option) \<Rightarrow> 'o item \<Rightarrow> bool option \<Rightarrow> bytes ForceContext result" where
  "memory_load_stream d (Str s) flag =
     (case d s of None \<Rightarrow> Inl MissingExternalResourceError | Some b \<Rightarrow> Inr (ForceContext b))"
| "memory_load_stream d (Obj x) flag = Inl MissingExternalResourceError"

section \<open>Examples\<close>

text \<open>
  A transformation with two clones that share one extension, and a second
  transformation that shares a clone with the first; then the records of the first
  as the in-memory backend holds them.
\<close>

definition ext :: gufe where "ext = GufeTokenizable ''E-0e'' [1] []"
definition clone1 :: gufe where "clone1 = GufeTokenizable ''C-01'' [2] [ext]"
definition clone2 :: gufe where "clone2 = GufeTokenizable ''C-02'' [3] [ext]"
definition trafo :: gufe where "trafo = GufeTokenizable ''T-0f'' [4] [clone1, clone2]"

definition trafo2 :: gufe where "trafo2 = GufeTokenizable ''T-1a'' [5] [clone1]"

definition stored :: "string \<Rightarrow> bytes option" where
  "stored = Map.empty(''setup/T/0f.json'' \<mapsto> [4], ''setup/C/01.json'' \<mapsto> [2],
                        ''setup/C/02.json'' \<mapsto> [3], ''setup/E/0e.json'' \<mapsto> [1])"









text \<open>
  Containers to run the indexing on: a heap that holds one \<^verbatim>\<open>ResultClient\<close>,
  identifiers of the unit type, a server that is the empty in-memory backend, the
  chain of a transformation, a clone and an extension, and the heap after that
  chain; then backends with one file each.
\<close>

definition fresh :: heap where
  "fresh = snd (new_ResultClient (\<lambda>u :: unit. 0) (\<lambda>u. ''None'') () [])"

definition chain :: "unit item list" where
  "chain = [Str ''t1'', Str ''c1'', Str ''e1'']"

definition nothing_stored :: "unit item \<Rightarrow> bool" where
  "nothing_stored = memory_contains_item Map.empty"

definition nothing_to_load :: "unit item \<Rightarrow> bool option \<Rightarrow> bytes ForceContext result" where
  "nothing_to_load = memory_load_stream Map.empty"

definition after_chain :: heap where
  "after_chain = snd (traverse nothing_stored nothing_to_load (\<lambda>u. 0) (\<lambda>u. ''None'') fresh 0 chain)"

definition file_below_root :: "string \<Rightarrow> bytes option" where
  "file_below_root = Map.empty(''transformations/f'' \<mapsto> [1])"

definition file_elsewhere :: "string \<Rightarrow> bytes option" where
  "file_elsewhere = Map.empty(''f'' \<mapsto> [2])"

definition one_result :: "string \<Rightarrow> bytes option" where
  "one_result = Map.empty(''transformations/t1/c1/e1/out.nc'' \<mapsto> [7])"

section \<open>Properties of the external storage\<close>

subsection \<open>Splitting, joining and paths\<close>

lemma split_no_sep: "w \<in> set (split c s) \<Longrightarrow> c \<notin> set w"
  by (induction s arbitrary: w) (auto split: if_splits list.splits)

lemma split_not_Nil: "split c s \<noteq> []"
  by (induction s) (auto split: list.splits)

lemma split_append_sep: "c \<notin> set x \<Longrightarrow> split c (x @ c # s) = x # split c s"
  by (induction x) (auto split: list.splits simp: split_not_Nil)

lemma split_no_sep_id: "c \<notin> set x \<Longrightarrow> split c x = [x]"
  by (induction x) (auto split: list.splits)

lemma split_join:
  "ps \<noteq> [] \<Longrightarrow> \<forall>w \<in> set ps. c \<notin> set w \<Longrightarrow> split c (join [c] ps) = ps"
proof (induction "[c]" ps rule: join.induct)
  case 1
  then show ?case by simp
next
  case (2 x)
  then show ?case by (simp add: split_no_sep_id)
next
  case (3 x y ys)
  then show ?case by (simp add: split_append_sep)
qed

lemma normal_Path: "normal (Path s)"
  by (auto simp: normal_def Path_def list_all_iff dest: split_no_sep)

lemma Path_str_path:
  assumes "is_absolute p" "normal p"
  shows "Path (str_path p) = p"
proof (cases "parts p = []")
  case True
  with assms show ?thesis
    by (cases p) (simp add: Path_def str_path_def)
next
  case False
  have ok: "\<forall>w \<in> set (parts p). CHR ''/'' \<notin> set w"
    using assms(2) by (simp add: normal_def list_all_iff)
  have keep: "filter (\<lambda>c. c \<noteq> [] \<and> c \<noteq> ''.'') (parts p) = parts p"
    using assms(2) by (simp add: normal_def list_all_iff)
  have "split (CHR ''/'') (join ''/'' (parts p)) = parts p"
    using split_join [OF False ok] by simp
  with assms(1) keep show ?thesis
    by (cases p) (simp add: Path_def str_path_def)
qed

lemma normal_as_path: "normal root \<Longrightarrow> normal (as_path root location)"
  using normal_Path [of location]
  by (simp add: as_path_def joinpath_def normal_def)

lemma absolute_as_path: "is_absolute root \<Longrightarrow> is_absolute (as_path root location)"
  by (simp add: as_path_def joinpath_def)

lemma as_path_absolute: "is_absolute p \<Longrightarrow> normal p \<Longrightarrow> as_path root (str_path p) = p"
  by (simp add: as_path_def Path_str_path joinpath_def)

subsection \<open>Storing and loading again\<close>

lemma open_rb_after_open_wb: "open_wb fs p b = Inr fs' \<Longrightarrow> open_rb fs' p = Inr b"
  by (auto simp: open_wb_def open_rb_def is_dir_def split: if_splits)

lemma store_FileStorage_Inr:
  assumes "store md5 (FileStorage root fs) loc P = (Inr (loc', m), st')"
  shows "\<exists>fs1 fs2. mkdir fs (parent_dir (as_path root loc)) = Inr fs1
           \<and> open_wb fs1 (as_path root loc) P = Inr fs2
           \<and> get_metadata md5 (FileStorage root fs2) (str_path (as_path root loc)) = Inr m
           \<and> loc' = str_path (as_path root loc) \<and> st' = FileStorage root fs2"
proof (cases "mkdir fs (parent_dir (as_path root loc))")
  case (Inl e)
  with assms show ?thesis by (simp add: store_def)
next
  case mk: (Inr fs1)
  show ?thesis
  proof (cases "open_wb fs1 (as_path root loc) P")
    case (Inl e)
    with assms mk show ?thesis by (simp add: store_def)
  next
    case wr: (Inr fs2)
    show ?thesis
    proof (cases "get_metadata md5 (FileStorage root fs2) (str_path (as_path root loc))")
      case (Inl e)
      with assms mk wr show ?thesis by (simp add: store_def)
    next
      case (Inr m')
      with assms mk wr show ?thesis by (auto simp add: store_def)
    qed
  qed
qed

text \<open>
  The in-memory backend returns what was stored, at every location and for every
  payload.
\<close>

lemma MemoryStorage_round_trip:
  "store md5 (MemoryStorage d) loc P = (Inr (loc, md5 P), MemoryStorage (d(loc \<mapsto> P)))
   \<and> load_stream md5 flag (MemoryStorage (d(loc \<mapsto> P))) loc (md5 P) = Inr (ForceContext P, [])"
  by (simp add: store_def load_stream_def validate_def get_metadata_def get_hexdigest_def)

text \<open>
  So does the file backend under an absolute root, whenever the store returns:
  there the path handed back as the location leads to the file again.
\<close>

lemma FileStorage_round_trip:
  assumes root: "is_absolute root" "normal root"
    and st: "store md5 (FileStorage root fs) loc P = (Inr (loc', m), st')"
  shows "load_stream md5 flag st' loc' m = Inr (ForceContext P, [])"
proof -
  define p where "p = as_path root loc"
  have p: "is_absolute p" "normal p"
    using root by (simp_all add: p_def absolute_as_path normal_as_path)
  from store_FileStorage_Inr [OF st] obtain fs1 fs2 where
    wr: "open_wb fs1 p P = Inr fs2" and
    md: "get_metadata md5 (FileStorage root fs2) (str_path p) = Inr m" and
    res: "loc' = str_path p" "st' = FileStorage root fs2"
    unfolding p_def by blast
  have rd: "load_stream' (FileStorage root fs2) (str_path p) = Inr P"
    using open_rb_after_open_wb [OF wr] p by (simp add: as_path_absolute)
  with md have "m = md5 P"
    by (simp add: get_metadata_def get_hexdigest_def)
  with rd res show ?thesis
    by (simp add: load_stream_def validate_def get_metadata_def get_hexdigest_def)
qed

text \<open>
  Claim C1: storing a payload at a location and loading it with the location and
  the metadata that the store returned yields the payload, on both backends.  The
  file backend breaks this under a relative root.  With the root \<^verbatim>\<open>data\<close>,
  an empty file system and the location \<^verbatim>\<open>a\<close>, the store writes
  \<^verbatim>\<open>data/a\<close> and then asks for the metadata of the string \<^verbatim>\<open>data/a\<close>,
  which \<^verbatim>\<open>_as_path\<close> joins to the root once more: \<^verbatim>\<open>data/data/a\<close> does not
  exist, and the store raises \<^verbatim>\<open>MissingExternalResourceError\<close> with the file
  written.  Nothing is returned that could be loaded.
\<close>

theorem FileStorage_relative_root_store_fails:
  "store md5 (FileStorage (Path ''data'') Map.empty) ''a'' [1]
     = (Inl MissingExternalResourceError,
        FileStorage (PosixPath False [''data''])
          (Map.empty(PosixPath False [''data''] \<mapsto> Dir,
                     PosixPath False [''data'', ''a''] \<mapsto> File [1])))"
  by (simp add: store_def Path_def as_path_def joinpath_def parent_dir_def mkdir_def
      open_wb_def is_dir_def get_metadata_def get_hexdigest_def str_path_def open_rb_def)

subsection \<open>Validation\<close>

text \<open>
  Claim C2: when the digest of the data at a location differs from the metadata
  expected, \<^verbatim>\<open>validate\<close>, \<^verbatim>\<open>load_stream\<close> and \<^verbatim>\<open>get_filename\<close> raise
  \<^verbatim>\<open>ChangedExternalResourceError\<close> while \<^verbatim>\<open>allow_changed\<close> has its default
  value; once it is set, each of them returns and the one warning about the
  mismatch is emitted.
\<close>

theorem validate_mismatch:
  assumes "get_metadata md5 st location = Inr m" and "m \<noteq> metadata"
  shows "validate md5 allow_changed_default st location metadata = Inl ChangedExternalResourceError
       \<and> load_stream md5 allow_changed_default st location metadata = Inl ChangedExternalResourceError
       \<and> get_filename md5 allow_changed_default st location metadata = Inl ChangedExternalResourceError
       \<and> validate md5 True st location metadata = Inr [mismatch_msg location]
       \<and> (\<exists>stream. load_stream md5 True st location metadata
                      = Inr (ForceContext stream, [mismatch_msg location]))
       \<and> get_filename md5 True st location metadata
            = Inr (get_filename' st location, [mismatch_msg location])"
proof -
  from assms have off: "validate md5 allow_changed_default st location metadata
      = Inl ChangedExternalResourceError"
    by (simp add: validate_def allow_changed_default_def)
  from assms have on: "validate md5 True st location metadata = Inr [mismatch_msg location]"
    by (simp add: validate_def)
  from assms(1) obtain stream where "load_stream' st location = Inr stream"
    by (auto simp: get_metadata_def get_hexdigest_def split: sum.splits)
  with on have "load_stream md5 True st location metadata
      = Inr (ForceContext stream, [mismatch_msg location])"
    by (simp add: load_stream_def)
  with off on show ?thesis
    by (simp add: load_stream_def get_filename_def)
qed

theorem validate_mismatch_witness:
  "get_metadata (\<lambda>b. ''new'') (MemoryStorage (Map.empty(''loc'' \<mapsto> [1]))) ''loc'' = Inr ''new''
   \<and> ''new'' \<noteq> ''old''
   \<and> load_stream (\<lambda>b. ''new'') allow_changed_default
        (MemoryStorage (Map.empty(''loc'' \<mapsto> [1]))) ''loc'' ''old''
        = Inl ChangedExternalResourceError
   \<and> validate (\<lambda>b. ''new'') True (MemoryStorage (Map.empty(''loc'' \<mapsto> [1]))) ''loc'' ''old''
        = Inr [mismatch_msg ''loc'']"
proof -
  have h1: "get_metadata (\<lambda>b. ''new'') (MemoryStorage (Map.empty(''loc'' \<mapsto> [1]))) ''loc''
      = Inr ''new''"
    by (simp add: get_metadata_def get_hexdigest_def)
  have h2: "''new'' \<noteq> ''old''" by simp
  from validate_mismatch [OF h1 h2] h1 h2 show ?thesis by simp
qed

subsection \<open>Locations without data\<close>

text \<open>
  On the file backend a location whose path is absent fails with the error for a
  missing resource in all three operations, and so does deleting an absent key of
  the in-memory backend.
\<close>

lemma FileStorage_missing_location:
  assumes "fs (as_path root location) = None" and "parts (as_path root location) \<noteq> []"
  shows "get_metadata md5 (FileStorage root fs) location = Inl MissingExternalResourceError
       \<and> load_stream md5 flag (FileStorage root fs) location metadata
            = Inl MissingExternalResourceError
       \<and> fst (delete (FileStorage root fs) location) = Inl MissingExternalResourceError"
  using assms
  by (simp add: get_metadata_def get_hexdigest_def load_stream_def validate_def open_rb_def
      delete_def path_exists_def is_dir_def)

lemma MemoryStorage_delete_missing:
  "delete (MemoryStorage (d(location := None))) location
     = (Inl MissingExternalResourceError, MemoryStorage (d(location := None)))"
  by (simp add: delete_def)

text \<open>
  Claim C5: at a location without data, \<^verbatim>\<open>load_stream\<close>, \<^verbatim>\<open>get_metadata\<close>
  and \<^verbatim>\<open>delete\<close> fail with \<^verbatim>\<open>MissingExternalResourceError\<close> on both
  backends.  The in-memory backend breaks this: its \<^verbatim>\<open>_load_stream\<close> indexes
  the dictionary without the guard that its \<^verbatim>\<open>_delete\<close> and the file backend
  have, so \<^verbatim>\<open>get_metadata\<close> and \<^verbatim>\<open>load_stream\<close> raise \<^verbatim>\<open>KeyError\<close> at
  every absent key.
\<close>

theorem MemoryStorage_missing_KeyError:
  "get_metadata md5 (MemoryStorage (d(location := None))) location = Inl KeyError
   \<and> load_stream md5 flag (MemoryStorage (d(location := None))) location metadata = Inl KeyError"
  by (simp add: get_metadata_def get_hexdigest_def load_stream_def validate_def)

section \<open>Properties of storing an object graph\<close>

subsection \<open>The loop\<close>

lemma store_objs_Cons_cases:
  assumes "store_objs contains store_bytes prefix (ob # obs) rs = (r, rs', w)"
  obtains
    (bad_key) e where "gufe_key_to_storage_key prefix (key ob) = Inl e"
      "r = Inl e" "rs' = rs" "w = []"
  | (skip) k where "gufe_key_to_storage_key prefix (key ob) = Inr k" "contains rs k"
      "store_objs contains store_bytes prefix obs rs = (r, rs', w)"
  | (failed) k e where "gufe_key_to_storage_key prefix (key ob) = Inr k" "\<not> contains rs k"
      "store_bytes rs k (keyed_json ob) = (Inl e, rs')" "r = Inl e" "w = [k]"
  | (written) k rs1 w2 where "gufe_key_to_storage_key prefix (key ob) = Inr k" "\<not> contains rs k"
      "store_bytes rs k (keyed_json ob) = (Inr (), rs1)"
      "store_objs contains store_bytes prefix obs rs1 = (r, rs', w2)" "w = k # w2"
proof (cases "gufe_key_to_storage_key prefix (key ob)")
  case (Inl e)
  with assms have "r = Inl e" "rs' = rs" "w = []" by auto
  with Inl show ?thesis by (intro bad_key [of e]) simp_all
next
  case conv: (Inr k)
  show ?thesis
  proof (cases "contains rs k")
    case True
    with assms conv have "store_objs contains store_bytes prefix obs rs = (r, rs', w)" by simp
    with conv True show ?thesis by (intro skip [of k]) simp_all
  next
    case False
    obtain r1 rs1 where sb: "store_bytes rs k (keyed_json ob) = (r1, rs1)"
      by (cases "store_bytes rs k (keyed_json ob)")
    show ?thesis
    proof (cases r1)
      case (Inl e)
      with assms conv False sb have "r = Inl e" "rs' = rs1" "w = [k]" by auto
      with conv False sb Inl show ?thesis by (intro failed [of k e]) simp_all
    next
      case (Inr u)
      obtain r2 rs2 w2 where run: "store_objs contains store_bytes prefix obs rs1 = (r2, rs2, w2)"
        by (cases "store_objs contains store_bytes prefix obs rs1") auto
      with assms conv False sb Inr have "r = r2" "rs' = rs2" "w = k # w2" by auto
      with conv False sb Inr run show ?thesis by (intro written [of k rs1 w2]) simp_all
    qed
  qed
qed

lemma store_objs_keeps:
  assumes K: "keeps contains store_bytes"
  shows "store_objs contains store_bytes prefix obs rs = (r, rs', w) \<Longrightarrow> contains rs k
         \<Longrightarrow> contains rs' k"
proof (induction obs arbitrary: rs r rs' w)
  case Nil
  then show ?case by simp
next
  case (Cons ob obs)
  from Cons.prems(1) show ?case
  proof (cases rule: store_objs_Cons_cases)
    case (bad_key e)
    with Cons.prems show ?thesis by simp
  next
    case (skip k')
    with Cons show ?thesis by blast
  next
    case (failed k' e)
    with K Cons.prems(2) show ?thesis unfolding keeps_def by blast
  next
    case (written k' rs1 w2)
    with K Cons.prems(2) have "contains rs1 k" unfolding keeps_def by blast
    with Cons.IH written show ?thesis by blast
  qed
qed

lemma store_objs_skips:
  assumes K: "keeps contains store_bytes"
  shows "store_objs contains store_bytes prefix obs rs = (r, rs', w) \<Longrightarrow> k \<in> set w
         \<Longrightarrow> \<not> contains rs k"
proof (induction obs arbitrary: rs r rs' w)
  case Nil
  then show ?case by simp
next
  case (Cons ob obs)
  from Cons.prems(1) show ?case
  proof (cases rule: store_objs_Cons_cases)
    case (bad_key e)
    with Cons.prems show ?thesis by simp
  next
    case (skip k')
    with Cons show ?thesis by blast
  next
    case (failed k' e)
    with Cons.prems(2) show ?thesis by simp
  next
    case (written k' rs1 w2)
    show ?thesis
    proof (cases "k = k'")
      case True
      with written show ?thesis by simp
    next
      case False
      with written Cons.prems(2) have "k \<in> set w2" by simp
      with Cons.IH written have "\<not> contains rs1 k" by blast
      with K written show ?thesis unfolding keeps_def by blast
    qed
  qed
qed

lemma store_objs_distinct:
  assumes K: "keeps contains store_bytes" and A: "adds contains store_bytes"
  shows "store_objs contains store_bytes prefix obs rs = (r, rs', w) \<Longrightarrow> distinct w"
proof (induction obs arbitrary: rs r rs' w)
  case Nil
  then show ?case by simp
next
  case (Cons ob obs)
  from Cons.prems(1) show ?case
  proof (cases rule: store_objs_Cons_cases)
    case (bad_key e)
    then show ?thesis by simp
  next
    case (skip k')
    with Cons show ?thesis by blast
  next
    case (failed k' e)
    then show ?thesis by simp
  next
    case (written k' rs1 w2)
    from A written have "contains rs1 k'" unfolding adds_def by blast
    with store_objs_skips [OF K written(4)] have "k' \<notin> set w2" by blast
    moreover from Cons.IH written have "distinct w2" by blast
    ultimately show ?thesis using written by simp
  qed
qed

lemma store_objs_present:
  assumes K: "keeps contains store_bytes" and A: "adds contains store_bytes"
  shows "store_objs contains store_bytes prefix obs rs = (Inr (), rs', w) \<Longrightarrow> ob \<in> set obs
         \<Longrightarrow> \<exists>k. gufe_key_to_storage_key prefix (key ob) = Inr k \<and> contains rs' k"
proof (induction obs arbitrary: rs rs' w)
  case Nil
  then show ?case by simp
next
  case (Cons ob' obs)
  from Cons.prems(1) show ?case
  proof (cases rule: store_objs_Cons_cases)
    case (bad_key e)
    then show ?thesis by simp
  next
    case (skip k')
    show ?thesis
    proof (cases "ob = ob'")
      case True
      with skip store_objs_keeps [OF K skip(3)] show ?thesis by blast
    next
      case False
      with Cons skip show ?thesis by auto
    qed
  next
    case (failed k' e)
    then show ?thesis by simp
  next
    case (written k' rs1 w2)
    show ?thesis
    proof (cases "ob = ob'")
      case True
      from A written have "contains rs1 k'" unfolding adds_def by blast
      with True written store_objs_keeps [OF K written(4)] show ?thesis by blast
    next
      case False
      with Cons written show ?thesis by auto
    qed
  qed
qed

lemma store_objs_written_keys:
  "store_objs contains store_bytes prefix obs rs = (r, rs', w) \<Longrightarrow> k \<in> set w
   \<Longrightarrow> \<exists>ob \<in> set obs. gufe_key_to_storage_key prefix (key ob) = Inr k"
proof (induction obs arbitrary: rs r rs' w)
  case Nil
  then show ?case by simp
next
  case (Cons ob obs)
  from Cons.prems(1) show ?case
  proof (cases rule: store_objs_Cons_cases)
    case (bad_key e)
    with Cons.prems show ?thesis by simp
  next
    case (skip k')
    with Cons show ?thesis by auto
  next
    case (failed k' e)
    with Cons.prems show ?thesis by simp
  next
    case (written k' rs1 w2)
    show ?thesis
    proof (cases "k = k'")
      case True
      with written show ?thesis by simp
    next
      case False
      with written Cons.prems(2) have "k \<in> set w2" by simp
      with Cons.IH written show ?thesis by auto
    qed
  qed
qed

lemma store_objs_all_new:
  assumes O: "only_adds contains store_bytes"
  shows "store_objs contains store_bytes prefix obs rs = (Inr (), rs', w) \<Longrightarrow> ob \<in> set obs
         \<Longrightarrow> gufe_key_to_storage_key prefix (key ob) = Inr k \<Longrightarrow> \<not> contains rs k
         \<Longrightarrow> k \<in> set w"
proof (induction obs arbitrary: rs rs' w)
  case Nil
  then show ?case by simp
next
  case (Cons ob' obs)
  from Cons.prems(1) show ?case
  proof (cases rule: store_objs_Cons_cases)
    case (bad_key e)
    then show ?thesis by simp
  next
    case (skip k')
    with Cons.prems have "ob \<in> set obs" by auto
    with Cons skip show ?thesis by blast
  next
    case (failed k' e)
    then show ?thesis by simp
  next
    case (written k' rs1 w2)
    show ?thesis
    proof (cases "k = k'")
      case True
      with written show ?thesis by simp
    next
      case False
      with written Cons.prems have "ob \<in> set obs" by auto
      moreover from O written False Cons.prems(4) have "\<not> contains rs1 k"
        unfolding only_adds_def by blast
      ultimately have "k \<in> set w2" using Cons.IH written Cons.prems(3) by blast
      with written show ?thesis by simp
    qed
  qed
qed

lemma store_objs_nothing_to_do:
  "\<forall>ob \<in> set obs. \<exists>k. gufe_key_to_storage_key prefix (key ob) = Inr k \<and> contains rs k
   \<Longrightarrow> store_objs contains store_bytes prefix obs rs = (Inr (), rs, [])"
  by (induction obs) auto

text \<open>The in-memory backend, used as the server, is such a server.\<close>

lemma memory_keeps: "keeps memory_contains (memory_store_bytes md5)"
  by (auto simp: keeps_def memory_contains_def memory_store_bytes_def store_def exists_def
      get_metadata_def get_hexdigest_def)

lemma memory_adds: "adds memory_contains (memory_store_bytes md5)"
  by (auto simp: adds_def memory_contains_def memory_store_bytes_def store_def exists_def
      get_metadata_def get_hexdigest_def)

lemma memory_only_adds: "only_adds memory_contains (memory_store_bytes md5)"
  by (auto simp: only_adds_def memory_contains_def memory_store_bytes_def store_def exists_def
      get_metadata_def get_hexdigest_def split: if_splits)

subsection \<open>The in-memory backend as the server\<close>

lemma objs_trafo: "get_all_gufe_objs trafo = [trafo, clone1, clone2, ext]"
  by (simp add: get_all_gufe_objs_def trafo_def clone1_def clone2_def ext_def)

lemma keys_trafo:
  "gufe_key_to_storage_key ''setup'' ''T-0f'' = Inr ''setup/T/0f.json''"
  "gufe_key_to_storage_key ''setup'' ''C-01'' = Inr ''setup/C/01.json''"
  "gufe_key_to_storage_key ''setup'' ''C-02'' = Inr ''setup/C/02.json''"
  "gufe_key_to_storage_key ''setup'' ''E-0e'' = Inr ''setup/E/0e.json''"
  by (simp_all add: gufe_key_to_storage_key_def)

subsection \<open>Deduplication\<close>

text \<open>
  Claim C3: \<^verbatim>\<open>_store_gufe_tokenizable\<close> skips every object of the graph whose
  storage key the result server already has, so that a key is written once: when
  a graph has been stored and a second one is stored after it, no key that was
  present is written, no key is written twice over both runs, every key of the
  first graph is present and none of them is written by the second run, and
  storing the first graph again writes nothing.  On a server where a write makes
  no other location present, the first run writes exactly the keys of the graph
  that were absent.  The result server is a parameter that keeps what it has and
  has what it stored.
\<close>

theorem store_gufe_tokenizable_deduplicates:
  assumes K: "keeps contains store_bytes" and A: "adds contains store_bytes"
    and run1: "store_gufe_tokenizable contains store_bytes prefix a rs = (Inr (), rs1, w1)"
    and run2: "store_gufe_tokenizable contains store_bytes prefix b rs1 = (r2, rs2, w2)"
  shows "(\<forall>k \<in> set w1. \<not> contains rs k) \<and> (\<forall>k \<in> set w2. \<not> contains rs1 k)
       \<and> distinct (w1 @ w2)
       \<and> set w1 \<subseteq> storage_keys prefix a \<and> set w2 \<subseteq> storage_keys prefix b
       \<and> (\<forall>k \<in> storage_keys prefix a. contains rs1 k)
       \<and> set w2 \<inter> storage_keys prefix a = {}
       \<and> (b = a \<longrightarrow> r2 = Inr () \<and> rs2 = rs1 \<and> w2 = [])
       \<and> (only_adds contains store_bytes \<longrightarrow>
            set w1 = storage_keys prefix a - {k. contains rs k})"
proof -
  let ?objs = "get_all_gufe_objs"
  have r1: "store_objs contains store_bytes prefix (?objs a) rs = (Inr (), rs1, w1)"
    using run1 by (simp add: store_gufe_tokenizable_def)
  have r2: "store_objs contains store_bytes prefix (?objs b) rs1 = (r2, rs2, w2)"
    using run2 by (simp add: store_gufe_tokenizable_def)
  have c1: "\<forall>k \<in> set w1. \<not> contains rs k"
    using store_objs_skips [OF K r1] by blast
  have c2: "\<forall>k \<in> set w2. \<not> contains rs1 k"
    using store_objs_skips [OF K r2] by blast
  have in1: "\<forall>k \<in> set w1. contains rs1 k"
  proof
    fix k assume "k \<in> set w1"
    from store_objs_written_keys [OF r1 this] obtain ob where
      ob: "ob \<in> set (?objs a)" "gufe_key_to_storage_key prefix (key ob) = Inr k" by blast
    from store_objs_present [OF K A r1 ob(1)] ob(2) show "contains rs1 k" by simp
  qed
  have c3: "distinct (w1 @ w2)"
    using store_objs_distinct [OF K A r1] store_objs_distinct [OF K A r2] in1 c2 by auto
  have c4: "set w1 \<subseteq> storage_keys prefix a"
    using store_objs_written_keys [OF r1] by (auto simp: storage_keys_def)
  have c5: "set w2 \<subseteq> storage_keys prefix b"
    using store_objs_written_keys [OF r2] by (auto simp: storage_keys_def)
  have c6: "\<forall>k \<in> storage_keys prefix a. contains rs1 k"
  proof
    fix k assume "k \<in> storage_keys prefix a"
    then obtain ob where
      ob: "ob \<in> set (?objs a)" "gufe_key_to_storage_key prefix (key ob) = Inr k"
      by (auto simp: storage_keys_def)
    from store_objs_present [OF K A r1 ob(1)] ob(2) show "contains rs1 k" by simp
  qed
  have c7: "set w2 \<inter> storage_keys prefix a = {}"
    using c2 c6 by blast
  have c8: "b = a \<longrightarrow> r2 = Inr () \<and> rs2 = rs1 \<and> w2 = []"
  proof
    assume "b = a"
    have "\<forall>ob \<in> set (?objs a). \<exists>k. gufe_key_to_storage_key prefix (key ob) = Inr k \<and> contains rs1 k"
      using store_objs_present [OF K A r1] by blast
    then have "store_objs contains store_bytes prefix (?objs a) rs1 = (Inr (), rs1, [])"
      by (rule store_objs_nothing_to_do)
    with r2 \<open>b = a\<close>
    show "r2 = Inr () \<and> rs2 = rs1 \<and> w2 = []" by simp
  qed
  have c9: "only_adds contains store_bytes \<longrightarrow> set w1 = storage_keys prefix a - {k. contains rs k}"
  proof
    assume O: "only_adds contains store_bytes"
    show "set w1 = storage_keys prefix a - {k. contains rs k}"
    proof (rule set_eqI, rule iffI)
      fix k assume "k \<in> set w1"
      with c1 c4 show "k \<in> storage_keys prefix a - {k. contains rs k}" by blast
    next
      fix k assume "k \<in> storage_keys prefix a - {k. contains rs k}"
      then obtain ob where
        ob: "ob \<in> set (?objs a)" "gufe_key_to_storage_key prefix (key ob) = Inr k"
        and nk: "\<not> contains rs k"
        by (auto simp: storage_keys_def)
      from store_objs_all_new [OF O r1 ob nk] show "k \<in> set w1" .
    qed
  qed
  from c1 c2 c3 c4 c5 c6 c7 c8 c9 show ?thesis by blast
qed

theorem store_gufe_tokenizable_deduplicates_witness:
  "keeps memory_contains (memory_store_bytes (\<lambda>b. ''d''))
   \<and> adds memory_contains (memory_store_bytes (\<lambda>b. ''d''))
   \<and> only_adds memory_contains (memory_store_bytes (\<lambda>b. ''d''))
   \<and> store_gufe_tokenizable memory_contains (memory_store_bytes (\<lambda>b. ''d'')) ''setup'' trafo Map.empty
       = (Inr (), stored,
          [''setup/T/0f.json'', ''setup/C/01.json'', ''setup/C/02.json'', ''setup/E/0e.json''])
   \<and> store_gufe_tokenizable memory_contains (memory_store_bytes (\<lambda>b. ''d'')) ''setup'' trafo2 stored
       = (Inr (), stored(''setup/T/1a.json'' \<mapsto> [5]), [''setup/T/1a.json''])
   \<and> distinct ([''setup/T/0f.json'', ''setup/C/01.json'', ''setup/C/02.json'', ''setup/E/0e.json'']
                 @ [''setup/T/1a.json''])
   \<and> set [''setup/T/1a.json''] \<inter> storage_keys ''setup'' trafo = {}
   \<and> set [''setup/T/0f.json'', ''setup/C/01.json'', ''setup/C/02.json'', ''setup/E/0e.json'']
       = storage_keys ''setup'' trafo - {k. memory_contains Map.empty k}"
proof -
  have run1: "store_gufe_tokenizable memory_contains (memory_store_bytes (\<lambda>b. ''d'')) ''setup'' trafo
      Map.empty
      = (Inr (), stored,
          [''setup/T/0f.json'', ''setup/C/01.json'', ''setup/C/02.json'', ''setup/E/0e.json''])"
    by (simp add: store_gufe_tokenizable_def objs_trafo)
      (simp add: trafo_def clone1_def clone2_def ext_def keys_trafo memory_contains_def
        memory_store_bytes_def store_def exists_def get_metadata_def get_hexdigest_def stored_def)
  have objs2: "get_all_gufe_objs trafo2 = [trafo2, clone1, ext]"
    by (simp add: get_all_gufe_objs_def trafo2_def clone1_def ext_def)
  have key2: "gufe_key_to_storage_key ''setup'' ''T-1a'' = Inr ''setup/T/1a.json''"
    by (simp add: gufe_key_to_storage_key_def)
  have run2: "store_gufe_tokenizable memory_contains (memory_store_bytes (\<lambda>b. ''d'')) ''setup'' trafo2
      stored
      = (Inr (), stored(''setup/T/1a.json'' \<mapsto> [5]), [''setup/T/1a.json''])"
    by (simp add: store_gufe_tokenizable_def objs2)
      (simp add: trafo2_def clone1_def ext_def keys_trafo key2 memory_contains_def
        memory_store_bytes_def store_def exists_def get_metadata_def get_hexdigest_def stored_def)
  note T = store_gufe_tokenizable_deduplicates [OF memory_keeps memory_adds run1 run2]
  from T have d: "distinct ([''setup/T/0f.json'', ''setup/C/01.json'', ''setup/C/02.json'',
      ''setup/E/0e.json''] @ [''setup/T/1a.json''])" by blast
  from T have i: "set [''setup/T/1a.json''] \<inter> storage_keys ''setup'' trafo = {}" by blast
  from T memory_only_adds [of "\<lambda>b. ''d''"]
  have e: "set [''setup/T/0f.json'', ''setup/C/01.json'', ''setup/C/02.json'', ''setup/E/0e.json'']
       = storage_keys ''setup'' trafo - {k. memory_contains Map.empty k}" by blast
  from memory_keeps memory_adds memory_only_adds run1 run2 d i e show ?thesis by blast
qed

section \<open>Properties of loading an object graph\<close>

subsection \<open>What a reconstruction that returns has done\<close>





subsection \<open>Where an error comes from\<close>



subsection \<open>When the error is the missing resource\<close>


subsection \<open>A missing dependency\<close>

















section \<open>Properties of the result hierarchy\<close>

subsection \<open>Paths\<close>

lemma path_root: "cls (h ! a) = ResultClient \<Longrightarrow> path h a = Inr ''transformations''"
  by (simp add: path.simps)

lemma path_child:
  "cls (h ! a) \<noteq> ResultClient \<Longrightarrow> parent (h ! a) < a \<Longrightarrow>
   path h a = (case path h (parent (h ! a)) of
                 Inl e \<Rightarrow> Inl e
               | Inr p \<Rightarrow> Inr (p @ ''/'' @ path_component (h ! a)))"
  by (subst path.simps) simp

lemma allocated_in_orderD:
  "allocated_in_order h \<Longrightarrow> a < length h \<Longrightarrow> cls (h ! a) = ResultClient \<or> parent (h ! a) < a"
  by (simp add: allocated_in_order_def list_all_iff)

lemma path_defined:
  "allocated_in_order h \<Longrightarrow> a < length h \<Longrightarrow> \<exists>p. path h a = Inr p"
proof (induction a rule: less_induct)
  case (less a)
  show ?case
  proof (cases "cls (h ! a) = ResultClient")
    case True
    then show ?thesis by (simp add: path_root)
  next
    case False
    with allocated_in_orderD [OF less.prems] have lt: "parent (h ! a) < a" by simp
    with less.prems have "parent (h ! a) < length h" by simp
    from less.IH [OF lt less.prems(1) this] obtain p where "path h (parent (h ! a)) = Inr p"
      by blast
    with False lt show ?thesis by (simp add: path_child)
  qed
qed

lemma extends_refl: "extends h h"
  by (simp add: extends_def)

lemma extends_trans: "extends h1 h2 \<Longrightarrow> extends h2 h3 \<Longrightarrow> extends h1 h3"
  unfolding extends_def by (metis (no_types, lifting) le_trans less_le_trans)

lemma path_extends:
  "extends h h' \<Longrightarrow> allocated_in_order h \<Longrightarrow> a < length h \<Longrightarrow> path h' a = path h a"
proof (induction a rule: less_induct)
  case (less a)
  from less.prems have same: "cls (h' ! a) = cls (h ! a)" "parent (h' ! a) = parent (h ! a)"
    "path_component (h' ! a) = path_component (h ! a)"
    by (simp_all add: extends_def)
  show ?case
  proof (cases "cls (h ! a) = ResultClient")
    case True
    with same show ?thesis by (simp add: path_root)
  next
    case False
    with allocated_in_orderD [OF less.prems(2,3)] have lt: "parent (h ! a) < a" by simp
    with less.prems have "parent (h ! a) < length h" by simp
    from less.IH [OF lt less.prems(1,2) this]
    have "path h' (parent (h ! a)) = path h (parent (h ! a))" .
    with False lt same show ?thesis by (simp add: path_child split: sum.splits)
  qed
qed

subsection \<open>Indexing\<close>

text \<open>Every outcome of indexing, with the heap it leaves.\<close>

lemma load_next_level_allocates:
  "\<exists>n. load_next_level hash str h a item = (length h, h @ [n]) \<and> parent n = a
       \<and> cls n \<noteq> ResultClient \<and> cache n = Map.empty"
  by (simp add: load_next_level_def new_TransformationResult_def new_CloneResult_def
      new_ExtensionResult_def init_def split: kind.splits)

lemma getitem_stream:
  "cls (h ! a) \<noteq> ExtensionResult \<Longrightarrow> contains item \<Longrightarrow>
   getitem contains load hash str h a item = (stream_of (load item None), h)"
  by (simp add: getitem_def ResultContainer_getitem_def)

lemma getitem_hit:
  "cls (h ! a) \<noteq> ExtensionResult \<Longrightarrow> \<not> contains item \<Longrightarrow>
   cache (h ! a) (to_path_component hash str (cls (h ! a)) item) = Some c \<Longrightarrow>
   getitem contains load hash str h a item = (Inr (Container c), h)"
  by (simp add: getitem_def ResultContainer_getitem_def)

lemma getitem_miss:
  assumes "cls (h ! a) \<noteq> ExtensionResult" "\<not> contains item"
    "cache (h ! a) (to_path_component hash str (cls (h ! a)) item) = None"
  shows "\<exists>n. getitem contains load hash str h a item =
           (Inr (Container (length h)),
            (h @ [n])[a := ((h @ [n]) ! a)
               \<lparr>cache := (cache ((h @ [n]) ! a))
                          (to_path_component hash str (cls (h ! a)) item \<mapsto> length h)\<rparr>])
         \<and> parent n = a \<and> cls n \<noteq> ResultClient \<and> cache n = Map.empty"
proof -
  from load_next_level_allocates [of hash str h a item] obtain n where
    n: "load_next_level hash str h a item = (length h, h @ [n])" "parent n = a"
       "cls n \<noteq> ResultClient" "cache n = Map.empty" by blast
  with assms show ?thesis
    by (intro exI [of _ n]) (simp add: getitem_def ResultContainer_getitem_def)
qed

lemma stream_of_not_Container: "stream_of r \<noteq> Inr (Container c)"
  by (simp add: stream_of_def split: sum.splits)

lemma getitem_extension:
  "cls (h ! a) = ExtensionResult \<Longrightarrow>
   getitem contains load hash str h a item = (ExtensionResult_load_next_level load h a item, h)"
  by (simp add: getitem_def ExtensionResult_getitem_def)

lemma extension_not_Container:
  "ExtensionResult_load_next_level load h a item \<noteq> Inr (Container c)"
  by (simp add: ExtensionResult_load_next_level_def stream_of_not_Container
      split: sum.splits item.splits)

lemma getitem_cases:
  assumes "getitem contains load hash str h a item = (r, h')"
  obtains
    (extension) "cls (h ! a) = ExtensionResult" "h' = h"
      "r = ExtensionResult_load_next_level load h a item"
  | (stream) "cls (h ! a) \<noteq> ExtensionResult" "contains item" "h' = h"
      "r = stream_of (load item None)"
  | (hit) c where "cls (h ! a) \<noteq> ExtensionResult" "\<not> contains item"
      "cache (h ! a) (to_path_component hash str (cls (h ! a)) item) = Some c"
      "h' = h" "r = Inr (Container c)"
  | (miss) n where "cls (h ! a) \<noteq> ExtensionResult" "\<not> contains item"
      "cache (h ! a) (to_path_component hash str (cls (h ! a)) item) = None"
      "r = Inr (Container (length h))"
      "h' = (h @ [n])[a := ((h @ [n]) ! a)
               \<lparr>cache := (cache ((h @ [n]) ! a))
                          (to_path_component hash str (cls (h ! a)) item \<mapsto> length h)\<rparr>]"
      "parent n = a" "cls n \<noteq> ResultClient" "cache n = Map.empty"
proof (cases "cls (h ! a) = ExtensionResult")
  case True
  from assms getitem_extension [OF True, of contains load hash str item]
  have "h' = h" "r = ExtensionResult_load_next_level load h a item" by auto
  with True show ?thesis by (rule extension)
next
  case False
  show ?thesis
  proof (cases "contains item")
    case True
    from assms getitem_stream [where contains = contains and item = item and load = load and hash = hash and str = str, OF False True]
    have "h' = h" "r = stream_of (load item None)" by auto
    with False True show ?thesis by (rule stream)
  next
    case nc: False
    show ?thesis
    proof (cases "cache (h ! a) (to_path_component hash str (cls (h ! a)) item)")
      case None
      from getitem_miss [where contains = contains and item = item and load = load and hash = hash and str = str, OF False nc None] obtain n where
        g: "getitem contains load hash str h a item =
           (Inr (Container (length h)),
            (h @ [n])[a := ((h @ [n]) ! a)
               \<lparr>cache := (cache ((h @ [n]) ! a))
                          (to_path_component hash str (cls (h ! a)) item \<mapsto> length h)\<rparr>])"
        and n: "parent n = a" "cls n \<noteq> ResultClient" "cache n = Map.empty" by blast
      from assms g have "r = Inr (Container (length h))"
        "h' = (h @ [n])[a := ((h @ [n]) ! a)
               \<lparr>cache := (cache ((h @ [n]) ! a))
                          (to_path_component hash str (cls (h ! a)) item \<mapsto> length h)\<rparr>]"
        by auto
      with False nc None show ?thesis using n by (rule miss)
    next
      case (Some c)
      from assms getitem_hit [where contains = contains and item = item and load = load and hash = hash and str = str, OF False nc Some]
      have "h' = h" "r = Inr (Container c)" by auto
      with False nc Some show ?thesis by (rule hit)
    qed
  qed
qed

lemma miss_heap:
  assumes "h' = (h @ [n])[a := ((h @ [n]) ! a)\<lparr>cache := (cache ((h @ [n]) ! a))(k \<mapsto> length h)\<rparr>]"
    and "a < length h"
  shows "length h' = Suc (length h)"
    and "h' ! length h = n"
    and "h' ! a = (h ! a)\<lparr>cache := (cache (h ! a))(k \<mapsto> length h)\<rparr>"
    and "\<And>b. b < length h \<Longrightarrow> b \<noteq> a \<Longrightarrow> h' ! b = h ! b"
  using assms by (simp_all add: nth_append)

lemma getitem_extends:
  assumes "getitem contains load hash str h a item = (r, h')" and "a < length h"
  shows "extends h h'"
  using assms(1)
proof (cases rule: getitem_cases)
  case (miss n)
  note H = miss_heap [OF miss(5) assms(2)]
  have "cls (h' ! b) = cls (h ! b) \<and> parent (h' ! b) = parent (h ! b)
        \<and> path_component (h' ! b) = path_component (h ! b)
        \<and> (\<forall>k c. cache (h ! b) k = Some c \<longrightarrow> cache (h' ! b) k = Some c)"
    if "b < length h" for b
  proof (cases "b = a")
    case True
    with H(3) miss(3) show ?thesis by auto
  next
    case False
    with H(4) that show ?thesis by simp
  qed
  with H(1) show ?thesis by (simp add: extends_def)
qed (simp_all add: extends_refl)

lemma getitem_allocated:
  assumes "getitem contains load hash str h a item = (r, h')" and "a < length h"
    and "allocated_in_order h"
  shows "allocated_in_order h'"
  using assms(1)
proof (cases rule: getitem_cases)
  case (miss n)
  note H = miss_heap [OF miss(5) assms(2)]
  have "cls (h' ! b) = ResultClient \<or> parent (h' ! b) < b" if b: "b < length h'" for b
  proof -
    consider "b = length h" | "b = a" | "b < length h" "b \<noteq> a"
      using b H(1) by linarith
    then show ?thesis
    proof cases
      case 1
      with H(2) miss(6) assms(2) show ?thesis by simp
    next
      case 2
      with H(3) allocated_in_orderD [OF assms(3,2)] show ?thesis by simp
    next
      case 3
      with H(4) allocated_in_orderD [OF assms(3) 3(1)] show ?thesis by simp
    qed
  qed
  then show ?thesis by (simp add: allocated_in_order_def list_all_iff)
qed (simp_all add: assms(3))

lemma cache_okD:
  "cache_ok h \<Longrightarrow> a < length h \<Longrightarrow> cache (h ! a) k = Some c \<Longrightarrow>
   c < length h \<and> a < c \<and> parent (h ! c) = a \<and> cls (h ! c) \<noteq> ResultClient"
  unfolding cache_ok_def by blast

lemma getitem_cache_ok:
  assumes "getitem contains load hash str h a item = (r, h')" and "a < length h"
    and "cache_ok h"
  shows "cache_ok h'"
  using assms(1)
proof (cases rule: getitem_cases)
  case (miss n)
  note H = miss_heap [OF miss(5) assms(2)]
  let ?key = "to_path_component hash str (cls (h ! a)) item"
  have old: "c < length h' \<and> b < c \<and> parent (h' ! c) = b \<and> cls (h' ! c) \<noteq> ResultClient"
    if "b < length h" "cache (h ! b) k = Some c" for b k c
  proof -
    from cache_okD [OF assms(3) that] have c: "c < length h" "b < c" "parent (h ! c) = b"
      "cls (h ! c) \<noteq> ResultClient" by simp_all
    show ?thesis
    proof (cases "c = a")
      case True
      with c H(1,3) show ?thesis by simp
    next
      case False
      with c H(1,4) show ?thesis by simp
    qed
  qed
  have "c < length h' \<and> b < c \<and> parent (h' ! c) = b \<and> cls (h' ! c) \<noteq> ResultClient"
    if b: "b < length h'" and e: "cache (h' ! b) k = Some c" for b k c
  proof -
    consider "b = length h" | "b = a" | "b < length h" "b \<noteq> a"
      using b H(1) by linarith
    then show ?thesis
    proof cases
      case 1
      with H(2) miss(8) e show ?thesis by simp
    next
      case 2
      show ?thesis
      proof (cases "k = ?key")
        case True
        with 2 H(3) e have "c = length h" by simp
        with 2 H(1,2) miss(6,7) assms(2) show ?thesis by simp
      next
        case False
        with 2 H(3) e have "cache (h ! a) k = Some c" by simp
        from old [OF assms(2) this] 2 show ?thesis by simp
      qed
    next
      case 3
      with H(4) e have "cache (h ! b) k = Some c" by simp
      from old [OF 3(1) this] show ?thesis .
    qed
  qed
  then show ?thesis unfolding cache_ok_def by blast
qed (simp_all add: assms(3))

lemma getitem_Container:
  assumes "getitem contains load hash str h a item = (Inr (Container c), h')"
    and "a < length h"
  shows "cls (h ! a) \<noteq> ExtensionResult \<and> \<not> contains item
       \<and> cache (h' ! a) (to_path_component hash str (cls (h ! a)) item) = Some c
       \<and> length h' \<le> Suc (length h)"
  using assms(1)
proof (cases rule: getitem_cases)
  case extension
  with extension_not_Container show ?thesis by metis
next
  case stream
  with stream_of_not_Container show ?thesis by metis
next
  case (hit c')
  then show ?thesis by simp
next
  case (miss n)
  note H = miss_heap [OF miss(5) assms(2)]
  from miss H(1,3) show ?thesis by simp
qed

lemma getitem_again:
  assumes g: "getitem contains load hash str h a item = (Inr (Container c), h1)"
    and a: "a < length h" and e: "extends h1 h2"
  shows "getitem contains load hash str h2 a item = (Inr (Container c), h2)"
proof -
  from getitem_Container [OF g a] have
    c: "cls (h ! a) \<noteq> ExtensionResult" "\<not> contains item"
       "cache (h1 ! a) (to_path_component hash str (cls (h ! a)) item) = Some c" by simp_all
  from getitem_extends [OF g a] a have a1: "a < length h1" "cls (h1 ! a) = cls (h ! a)"
    by (simp_all add: extends_def)
  with e have "cls (h2 ! a) = cls (h ! a)"
    "cache (h2 ! a) (to_path_component hash str (cls (h ! a)) item) = Some c"
    using c(3) by (simp_all add: extends_def)
  with c show ?thesis by (simp add: getitem_hit)
qed

subsection \<open>Chains\<close>

lemma traverse_invariants:
  "traverse contains load hash str h a items = (r, h') \<Longrightarrow> a < length h \<Longrightarrow>
   cache_ok h \<Longrightarrow> allocated_in_order h \<Longrightarrow>
   extends h h' \<and> cache_ok h' \<and> allocated_in_order h'"
proof (induction items arbitrary: h a)
  case Nil
  then show ?case by (simp add: extends_refl)
next
  case (Cons i items)
  obtain r1 h1 where g: "getitem contains load hash str h a i = (r1, h1)"
    by (cases "getitem contains load hash str h a i")
  note inv = getitem_extends [OF g Cons.prems(2)] getitem_cache_ok [OF g Cons.prems(2,3)]
    getitem_allocated [OF g Cons.prems(2,4)]
  show ?case
  proof (cases r1)
    case (Inl e)
    with g Cons.prems(1) have "h' = h1" by simp
    with inv show ?thesis by simp
  next
    case (Inr l)
    show ?thesis
    proof (cases l)
      case (Stream f)
      with Inr g Cons.prems(1) have "h' = h1" by simp
      with inv show ?thesis by simp
    next
      case (Container c)
      with Inr g have g': "getitem contains load hash str h a i = (Inr (Container c), h1)"
        by simp
      with Cons.prems(1) have t: "traverse contains load hash str h1 c items = (r, h')" by simp
      from getitem_Container [OF g' Cons.prems(2)] inv(1) Cons.prems(2)
      have "cache (h1 ! a) (to_path_component hash str (cls (h ! a)) i) = Some c" "a < length h1"
        by (simp_all add: extends_def)
      with cache_okD [OF inv(2)] have "c < length h1" by blast
      from Cons.IH [OF t this inv(2,3)] inv(1) show ?thesis
        by (blast intro: extends_trans)
    qed
  qed
qed

lemma traverse_again:
  "traverse contains load hash str h a items = (Inr (Container e), h') \<Longrightarrow> a < length h \<Longrightarrow>
   cache_ok h \<Longrightarrow> allocated_in_order h \<Longrightarrow> extends h' h2 \<Longrightarrow>
   traverse contains load hash str h2 a items = (Inr (Container e), h2)"
proof (induction items arbitrary: h a)
  case Nil
  then show ?case by simp
next
  case (Cons i items)
  obtain r1 h1 where g: "getitem contains load hash str h a i = (r1, h1)"
    by (cases "getitem contains load hash str h a i")
  note inv = getitem_extends [OF g Cons.prems(2)] getitem_cache_ok [OF g Cons.prems(2,3)]
    getitem_allocated [OF g Cons.prems(2,4)]
  from g Cons.prems(1) obtain c where r1: "r1 = Inr (Container c)"
    by (cases r1; cases "projr r1") (auto split: if_splits)
  with g have g': "getitem contains load hash str h a i = (Inr (Container c), h1)" by simp
  with Cons.prems(1) have t: "traverse contains load hash str h1 c items = (Inr (Container e), h')"
    by simp
  from getitem_Container [OF g' Cons.prems(2)] inv(1) Cons.prems(2)
  have "cache (h1 ! a) (to_path_component hash str (cls (h ! a)) i) = Some c" "a < length h1"
    by (simp_all add: extends_def)
  with cache_okD [OF inv(2)] have c: "c < length h1" by blast
  from traverse_invariants [OF t c inv(2,3)] have "extends h1 h'" by simp
  from this Cons.prems(5) have "extends h1 h2" by (rule extends_trans)
  from getitem_again [OF g' Cons.prems(2) this]
  have "getitem contains load hash str h2 a i = (Inr (Container c), h2)" .
  moreover from Cons.IH [OF t c inv(2,3) Cons.prems(5)]
  have "traverse contains load hash str h2 c items = (Inr (Container e), h2)" .
  ultimately show ?case by simp
qed

lemma traverse_path:
  "traverse contains load hash str h a items = (Inr (Container e), h') \<Longrightarrow> a < length h \<Longrightarrow>
   cache_ok h \<Longrightarrow> allocated_in_order h \<Longrightarrow>
   \<exists>p segs. path h' a = Inr p \<and> length segs = length items
     \<and> path h' e = Inr (below p segs)"
proof (induction items arbitrary: h a)
  case Nil
  then have "e = a" "h' = h" by simp_all
  with path_defined [OF Nil.prems(4,2)] show ?case by auto
next
  case (Cons i items)
  obtain r1 h1 where g: "getitem contains load hash str h a i = (r1, h1)"
    by (cases "getitem contains load hash str h a i")
  note inv = getitem_extends [OF g Cons.prems(2)] getitem_cache_ok [OF g Cons.prems(2,3)]
    getitem_allocated [OF g Cons.prems(2,4)]
  from g Cons.prems(1) obtain c where r1: "r1 = Inr (Container c)"
    by (cases r1; cases "projr r1") (auto split: if_splits)
  with g have g': "getitem contains load hash str h a i = (Inr (Container c), h1)" by simp
  with Cons.prems(1) have t: "traverse contains load hash str h1 c items = (Inr (Container e), h')"
    by simp
  from getitem_Container [OF g' Cons.prems(2)] inv(1) Cons.prems(2)
  have "cache (h1 ! a) (to_path_component hash str (cls (h ! a)) i) = Some c"
    and a1: "a < length h1"
    by (simp_all add: extends_def)
  with cache_okD [OF inv(2)] have c: "c < length h1" "a < c" "parent (h1 ! c) = a"
    "cls (h1 ! c) \<noteq> ResultClient" by blast+
  from traverse_invariants [OF t c(1) inv(2,3)] have e': "extends h1 h'"
    and al: "allocated_in_order h'" by simp_all
  from e' c have c': "parent (h' ! c) = a" "cls (h' ! c) \<noteq> ResultClient"
    by (simp_all add: extends_def)
  from e' a1 have "a < length h'" by (simp add: extends_def)
  from path_defined [OF al this] obtain p where p: "path h' a = Inr p" by blast
  with c' c(2) have pc: "path h' c = Inr (p @ ''/'' @ path_component (h' ! c))"
    by (simp add: path_child)
  from Cons.IH [OF t c(1) inv(2,3)] pc obtain segs where
    segs: "length segs = length items"
      "path h' e = Inr (below (p @ ''/'' @ path_component (h' ! c)) segs)"
    by auto
  have "length (path_component (h' ! c) # segs) = length (i # items)"
    using segs(1) by simp
  moreover have "path h' e = Inr (below p (path_component (h' ! c) # segs))"
    using segs(2) by simp
  ultimately show ?case using p by blast
qed

subsection \<open>The example\<close>

lemma fresh_eq:
  "fresh = [\<lparr>cls = ResultClient, parent = 0, path_component = ''0'', cache = Map.empty\<rparr>]"
  by (simp add: fresh_def new_ResultClient_def init_def str_int_def str_nat.simps digit_char_def)

lemma fresh_ok: "allocated_in_order fresh \<and> cache_ok fresh \<and> 0 < length fresh"
  by (simp add: fresh_eq allocated_in_order_def cache_ok_def)

lemma chain_run:
  "traverse nothing_stored nothing_to_load (\<lambda>u. 0) (\<lambda>u. ''None'') fresh 0 chain
     = (Inr (Container 3), after_chain)"
  by (simp add: after_chain_def chain_def fresh_eq nothing_stored_def memory_contains_def exists_def
      getitem_def ResultContainer_getitem_def load_next_level_def new_TransformationResult_def
      new_CloneResult_def new_ExtensionResult_def init_def)

lemma after_chain_eq:
  "after_chain =
    [\<lparr>cls = ResultClient, parent = 0, path_component = ''0'', cache = [''t1'' \<mapsto> 1]\<rparr>,
     \<lparr>cls = TransformationResult, parent = 0, path_component = ''t1'', cache = [''c1'' \<mapsto> 2]\<rparr>,
     \<lparr>cls = CloneResult, parent = 1, path_component = ''c1'', cache = [''e1'' \<mapsto> 3]\<rparr>,
     \<lparr>cls = ExtensionResult, parent = 2, path_component = ''e1'', cache = Map.empty\<rparr>]"
  by (simp add: after_chain_def chain_def fresh_eq nothing_stored_def memory_contains_def exists_def
      getitem_def ResultContainer_getitem_def load_next_level_def new_TransformationResult_def
      new_CloneResult_def new_ExtensionResult_def init_def eval_nat_numeral)

lemma after_chain_path: "path after_chain 3 = Inr ''transformations/t1/c1/e1''"
  by (simp add: after_chain_eq path_child path_root eval_nat_numeral)

subsection \<open>The path of a container\<close>

text \<open>
  Claim C6: the path of a \<^verbatim>\<open>ResultClient\<close> is the literal
  \<^verbatim>\<open>transformations\<close>, and the path of every other container is the path of
  its parent, a slash and its own path component.  Hence a chain of indexing that
  ends in a container ends in the same container, with the same path, when it is
  walked again, and that path is the path of the start followed by one component
  for every step.
\<close>

theorem path_invariant:
  assumes "allocated_in_order h" and "cache_ok h" and "a < length h"
  shows "(cls (h ! a) = ResultClient \<longrightarrow> path h a = Inr ''transformations'')
       \<and> (cls (h ! a) \<noteq> ResultClient \<longrightarrow>
            (\<exists>p. path h (parent (h ! a)) = Inr p
                 \<and> path h a = Inr (p @ ''/'' @ path_component (h ! a))))
       \<and> (\<forall>items e h'.
            traverse contains load hash str h a items = (Inr (Container e), h') \<longrightarrow>
              traverse contains load hash str h' a items = (Inr (Container e), h')
              \<and> (\<exists>p segs. path h' a = Inr p \<and> length segs = length items
                    \<and> path h' e = Inr (below p segs)))"
proof (intro conjI impI allI)
  assume "cls (h ! a) = ResultClient"
  then show "path h a = Inr ''transformations''" by (rule path_root)
next
  assume nr: "cls (h ! a) \<noteq> ResultClient"
  with allocated_in_orderD [OF assms(1,3)] have lt: "parent (h ! a) < a" by simp
  with assms(3) have "parent (h ! a) < length h" by simp
  from path_defined [OF assms(1) this] obtain p where "path h (parent (h ! a)) = Inr p" by blast
  with nr lt show "\<exists>p. path h (parent (h ! a)) = Inr p
      \<and> path h a = Inr (p @ ''/'' @ path_component (h ! a))"
    by (simp add: path_child)
next
  fix items e h'
  assume t: "traverse contains load hash str h a items = (Inr (Container e), h')"
  from traverse_again [OF t assms(3,2,1) extends_refl]
  show "traverse contains load hash str h' a items = (Inr (Container e), h')" .
  from traverse_path [OF t assms(3,2,1)]
  show "\<exists>p segs. path h' a = Inr p \<and> length segs = length items
      \<and> path h' e = Inr (below p segs)" .
qed

theorem path_invariant_witness:
  "allocated_in_order fresh \<and> cache_ok fresh \<and> 0 < length fresh
   \<and> path fresh 0 = Inr ''transformations''
   \<and> traverse nothing_stored nothing_to_load (\<lambda>u. 0) (\<lambda>u. ''None'') fresh 0 chain
       = (Inr (Container 3), after_chain)
   \<and> traverse nothing_stored nothing_to_load (\<lambda>u. 0) (\<lambda>u. ''None'') after_chain 0 chain
       = (Inr (Container 3), after_chain)
   \<and> path after_chain 3 = Inr ''transformations/t1/c1/e1''
   \<and> path after_chain 3 = Inr (below ''transformations'' [''t1'', ''c1'', ''e1''])"
proof -
  have ok: "allocated_in_order fresh" "cache_ok fresh" "0 < length fresh"
    using fresh_ok by simp_all
  note P = path_invariant [OF ok, of nothing_stored nothing_to_load "\<lambda>u. 0" "\<lambda>u. ''None''"]
  have root: "cls (fresh ! 0) = ResultClient" by (simp add: fresh_eq)
  with P have p0: "path fresh 0 = Inr ''transformations''" by blast
  from P chain_run
  have again: "traverse nothing_stored nothing_to_load (\<lambda>u. 0) (\<lambda>u. ''None'') after_chain 0 chain
       = (Inr (Container 3), after_chain)" by blast
  from ok p0 chain_run again after_chain_path show ?thesis by simp
qed

subsection \<open>What indexing looks up\<close>

text \<open>
  Claim C7 says that indexing first looks for a location directly beneath the
  container and falls back to the child container only when there is none.  It is
  false as stated: with the file \<^verbatim>\<open>transformations/f\<close> stored, indexing the
  \<^verbatim>\<open>ResultClient\<close> with \<^verbatim>\<open>f\<close> returns a new container, since the
  membership test is made on the identifier itself; with a file stored at
  \<^verbatim>\<open>f\<close>, which is not beneath the container, the same indexing returns the
  stream of that file; and an \<^verbatim>\<open>ExtensionResult\<close> indexed with a file that
  does not exist returns no container but the error of the server.
\<close>

theorem getitem_checks_item_itself:
  "path fresh 0 = Inr ''transformations''
   \<and> memory_contains_item file_below_root (Str (''transformations'' @ ''/'' @ ''f'') :: unit item)
   \<and> fst (getitem (memory_contains_item file_below_root) (memory_load_stream file_below_root)
             (\<lambda>u :: unit. 0) (\<lambda>u. ''None'') fresh 0 (Str ''f'')) = Inr (Container 1)
   \<and> \<not> memory_contains_item file_elsewhere (Str (''transformations'' @ ''/'' @ ''f'') :: unit item)
   \<and> getitem (memory_contains_item file_elsewhere) (memory_load_stream file_elsewhere)
         (\<lambda>u :: unit. 0) (\<lambda>u. ''None'') fresh 0 (Str ''f'') = (Inr (Stream (ForceContext [2])), fresh)
   \<and> cls (after_chain ! 3) = ExtensionResult
   \<and> getitem nothing_stored nothing_to_load (\<lambda>u :: unit. 0) (\<lambda>u. ''None'') after_chain 3 (Str ''g'')
       = (Inl MissingExternalResourceError, after_chain)"
  by (simp add: fresh_eq path_root file_below_root_def file_elsewhere_def memory_contains_def
      exists_def getitem_def ResultContainer_getitem_def load_next_level_def
      new_TransformationResult_def init_def stream_of_def Let_def
      after_chain_eq ExtensionResult_getitem_def ExtensionResult_load_next_level_def
      path_child nothing_to_load_def eval_nat_numeral)

text \<open>
  Claim C7 as amended: a \<^verbatim>\<open>ResultClient\<close>, a \<^verbatim>\<open>TransformationResult\<close> and
  a \<^verbatim>\<open>CloneResult\<close> first ask the result server whether the identifier itself,
  as given and not joined to the path of the container, is a location, and return
  the \<^verbatim>\<open>load_stream\<close> of the server for it if so; only otherwise is the
  identifier that of a child, and a container is returned.  An
  \<^verbatim>\<open>ExtensionResult\<close> asks nothing: it returns the \<^verbatim>\<open>load_stream\<close> of the
  server for its path, a slash and the file name.
\<close>

theorem getitem_lookup_order:
  "(cls (h ! a) \<noteq> ExtensionResult \<longrightarrow>
      (contains item \<longrightarrow>
         getitem contains load hash str h a item = (stream_of (load item None), h))
      \<and> (\<not> contains item \<longrightarrow>
           (\<exists>c h'. getitem contains load hash str h a item = (Inr (Container c), h'))))
   \<and> (cls (h ! a) = ExtensionResult \<longrightarrow>
        getitem contains load hash str h a item
          = (ExtensionResult_load_next_level load h a item, h)
        \<and> (\<forall>p s. path h a = Inr p \<longrightarrow> item = Str s \<longrightarrow>
              getitem contains load hash str h a item
                = (stream_of (load (Str (p @ ''/'' @ s)) None), h)))"
proof (intro conjI impI allI)
  assume "cls (h ! a) \<noteq> ExtensionResult" "contains item"
  then show "getitem contains load hash str h a item = (stream_of (load item None), h)"
    by (rule getitem_stream)
next
  assume n: "cls (h ! a) \<noteq> ExtensionResult" "\<not> contains item"
  obtain r h' where g: "getitem contains load hash str h a item = (r, h')"
    by (cases "getitem contains load hash str h a item")
  from g n obtain c where "r = Inr (Container c)"
    by (cases rule: getitem_cases) simp_all
  with g show "\<exists>c h'. getitem contains load hash str h a item = (Inr (Container c), h')"
    by blast
next
  assume "cls (h ! a) = ExtensionResult"
  then show "getitem contains load hash str h a item
      = (ExtensionResult_load_next_level load h a item, h)"
    by (rule getitem_extension)
next
  fix p s
  assume "cls (h ! a) = ExtensionResult" "path h a = Inr p" "item = Str s"
  then show "getitem contains load hash str h a item
      = (stream_of (load (Str (p @ ''/'' @ s)) None), h)"
    by (simp add: getitem_extension ExtensionResult_load_next_level_def)
qed

theorem getitem_lookup_order_witness:
  "cls (after_chain ! 0) \<noteq> ExtensionResult
   \<and> memory_contains_item one_result (Str ''transformations/t1/c1/e1/out.nc'' :: unit item)
   \<and> getitem (memory_contains_item one_result) (memory_load_stream one_result)
         (\<lambda>u :: unit. 0) (\<lambda>u. ''None'') after_chain 0 (Str ''transformations/t1/c1/e1/out.nc'')
       = (Inr (Stream (ForceContext [7])), after_chain)
   \<and> \<not> memory_contains_item one_result (Str ''t1'' :: unit item)
   \<and> getitem (memory_contains_item one_result) (memory_load_stream one_result)
         (\<lambda>u :: unit. 0) (\<lambda>u. ''None'') after_chain 0 (Str ''t1'') = (Inr (Container 1), after_chain)
   \<and> cls (after_chain ! 3) = ExtensionResult
   \<and> path after_chain 3 = Inr ''transformations/t1/c1/e1''
   \<and> getitem (memory_contains_item one_result) (memory_load_stream one_result)
         (\<lambda>u :: unit. 0) (\<lambda>u. ''None'') after_chain 3 (Str ''out.nc'')
       = (Inr (Stream (ForceContext [7])), after_chain)"
proof -
  let ?g = "getitem (memory_contains_item one_result) (memory_load_stream one_result)
         (\<lambda>u :: unit. 0) (\<lambda>u. ''None'')"
  let ?loc = "Str ''transformations/t1/c1/e1/out.nc'' :: unit item"
  have r: "cls (after_chain ! 0) \<noteq> ExtensionResult" by (simp add: after_chain_eq)
  have e: "cls (after_chain ! 3) = ExtensionResult" by (simp add: after_chain_eq eval_nat_numeral)
  have c1: "memory_contains_item one_result ?loc"
    by (simp add: one_result_def memory_contains_def exists_def)
  have c2: "\<not> memory_contains_item one_result (Str ''t1'' :: unit item)"
    by (simp add: one_result_def memory_contains_def exists_def)
  have l: "stream_of (memory_load_stream one_result ?loc None) = Inr (Stream (ForceContext [7]))"
    by (simp add: one_result_def stream_of_def)
  have cat: "''transformations/t1/c1/e1'' @ ''/'' @ ''out.nc'' = ''transformations/t1/c1/e1/out.nc''"
    by simp
  note T0 = getitem_lookup_order [of after_chain 0 "memory_contains_item one_result" ?loc
      "memory_load_stream one_result" "\<lambda>u. 0" "\<lambda>u. ''None''"]
  have "?g after_chain 0 ?loc = (stream_of (memory_load_stream one_result ?loc None), after_chain)"
    by (rule T0 [THEN conjunct1, THEN mp, OF r, THEN conjunct1, THEN mp, OF c1])
  with l have s1: "?g after_chain 0 ?loc = (Inr (Stream (ForceContext [7])), after_chain)"
    by (simp only:)
  have s2: "?g after_chain 0 (Str ''t1'') = (Inr (Container 1), after_chain)"
    by (simp add: getitem_def ResultContainer_getitem_def after_chain_eq Let_def
        one_result_def memory_contains_def exists_def)
  note T3 = getitem_lookup_order [of after_chain 3 "memory_contains_item one_result"
      "Str ''out.nc'' :: unit item" "memory_load_stream one_result" "\<lambda>u. 0" "\<lambda>u. ''None''"]
  have "?g after_chain 3 (Str ''out.nc'')
       = (stream_of (memory_load_stream one_result
            (Str (''transformations/t1/c1/e1'' @ ''/'' @ ''out.nc'') :: unit item) None),
          after_chain)"
    by (rule T3 [THEN conjunct2, THEN mp, OF e, THEN conjunct2, THEN spec, THEN spec, THEN mp,
          THEN mp, OF after_chain_path refl])
  with l have s3: "?g after_chain 3 (Str ''out.nc'')
       = (Inr (Stream (ForceContext [7])), after_chain)"
    by (simp only: cat)
  show ?thesis
    by (intro conjI) (rule r e c1 c2 s1 s2 s3 after_chain_path)+
qed

subsection \<open>Memoized children\<close>

text \<open>
  Claim C8: indexing a container other than an \<^verbatim>\<open>ExtensionResult\<close> with the
  identifier of a child (an identifier that is not a location of the result
  server) returns a container, allocates at most one object, and returns the same
  container without allocating when the lookup is repeated, at once or in any
  later state of the heap.
\<close>

theorem getitem_memoized:
  assumes "a < length h" and "cls (h ! a) \<noteq> ExtensionResult" and "\<not> contains item"
  shows "\<exists>c h1. getitem contains load hash str h a item = (Inr (Container c), h1)
           \<and> length h1 \<le> Suc (length h)
           \<and> getitem contains load hash str h1 a item = (Inr (Container c), h1)
           \<and> (\<forall>h2. extends h1 h2 \<longrightarrow>
                 getitem contains load hash str h2 a item = (Inr (Container c), h2))"
proof -
  obtain r h1 where g: "getitem contains load hash str h a item = (r, h1)"
    by (cases "getitem contains load hash str h a item")
  from g assms(2,3) obtain c where r: "r = Inr (Container c)"
    by (cases rule: getitem_cases) simp_all
  with g have g': "getitem contains load hash str h a item = (Inr (Container c), h1)" by simp
  from getitem_Container [OF g' assms(1)] have "length h1 \<le> Suc (length h)" by simp
  moreover have "getitem contains load hash str h2 a item = (Inr (Container c), h2)"
    if "extends h1 h2" for h2
    using getitem_again [OF g' assms(1) that] .
  ultimately show ?thesis using g' extends_refl by blast
qed

theorem getitem_memoized_witness:
  "0 < length fresh \<and> cls (fresh ! 0) \<noteq> ExtensionResult \<and> \<not> nothing_stored (Str ''t1'')
   \<and> fst (getitem nothing_stored nothing_to_load (\<lambda>u. 0) (\<lambda>u. ''None'') fresh 0 (Str ''t1''))
       = Inr (Container 1)
   \<and> length (snd (getitem nothing_stored nothing_to_load (\<lambda>u. 0) (\<lambda>u. ''None'') fresh 0
                    (Str ''t1''))) = 2
   \<and> getitem nothing_stored nothing_to_load (\<lambda>u. 0) (\<lambda>u. ''None'')
        (snd (getitem nothing_stored nothing_to_load (\<lambda>u. 0) (\<lambda>u. ''None'') fresh 0 (Str ''t1'')))
        0 (Str ''t1'')
       = (Inr (Container 1),
          snd (getitem nothing_stored nothing_to_load (\<lambda>u. 0) (\<lambda>u. ''None'') fresh 0 (Str ''t1'')))
   \<and> getitem nothing_stored nothing_to_load (\<lambda>u. 0) (\<lambda>u. ''None'') after_chain 0 (Str ''t1'')
       = (Inr (Container 1), after_chain)"
proof -
  let ?g = "getitem nothing_stored nothing_to_load (\<lambda>u :: unit. 0) (\<lambda>u. ''None'')"
  have a: "0 < length fresh" "cls (fresh ! 0) \<noteq> ExtensionResult" "\<not> nothing_stored (Str ''t1'')"
    by (simp_all add: fresh_eq nothing_stored_def memory_contains_def exists_def)
  have first: "fst (?g fresh 0 (Str ''t1'')) = Inr (Container 1)"
    "length (snd (?g fresh 0 (Str ''t1''))) = 2"
    using a(3) by (simp_all add: fresh_eq getitem_def ResultContainer_getitem_def
        load_next_level_def new_TransformationResult_def init_def Let_def)
  from getitem_memoized [where contains = nothing_stored and item = "Str ''t1''" and h = fresh
      and a = 0 and load = nothing_to_load and hash = "\<lambda>u. 0" and str = "\<lambda>u. ''None''", OF a]
  obtain c h1 where
    m: "?g fresh 0 (Str ''t1'') = (Inr (Container c), h1)"
       "?g h1 0 (Str ''t1'') = (Inr (Container c), h1)"
       "\<forall>h2. extends h1 h2 \<longrightarrow> ?g h2 0 (Str ''t1'') = (Inr (Container c), h2)"
    by blast
  from m(1) first(1) have c: "c = 1" by simp
  from m(1) have h1: "h1 = snd (?g fresh 0 (Str ''t1''))" by simp
  have t: "traverse nothing_stored nothing_to_load (\<lambda>u. 0) (\<lambda>u. ''None'') h1 1 [Str ''c1'', Str ''e1'']
      = (Inr (Container 3), after_chain)"
    using chain_run m(1) c by (simp add: chain_def)
  have "1 < length h1" using h1 first(2) by simp
  moreover have "cache_ok h1" "allocated_in_order h1"
    using getitem_cache_ok [OF m(1)] getitem_allocated [OF m(1)] fresh_ok by simp_all
  ultimately have "extends h1 after_chain"
    using traverse_invariants [OF t] by simp
  with m(3) c have later: "?g after_chain 0 (Str ''t1'') = (Inr (Container 1), after_chain)"
    by simp
  from a first m(2) c h1 later show ?thesis by simp
qed

subsection \<open>Path components of objects\<close>

lemma digit_char_cases:
  assumes "d < 10"
  shows "of_char (digit_char d) - of_char (CHR ''0'') = d \<and> digit_char d \<noteq> CHR ''-''"
proof -
  from assms have "d = 0 \<or> d = 1 \<or> d = 2 \<or> d = 3 \<or> d = 4 \<or> d = 5 \<or> d = 6
    \<or> d = 7 \<or> d = 8 \<or> d = 9" by arith
  then show ?thesis
    by (elim disjE) (simp_all add: digit_char_def eval_nat_numeral)
qed

lemma nat_of_digits_snoc:
  "nat_of_digits (ds @ [c]) = 10 * nat_of_digits ds + (of_char c - of_char (CHR ''0''))"
  by (simp add: nat_of_digits_def)

lemma nat_of_digits_str_nat: "nat_of_digits (str_nat n) = n"
proof (induction n rule: str_nat.induct)
  case (1 n)
  show ?case
  proof (cases "n < 10")
    case True
    with digit_char_cases [OF True] show ?thesis
      by (subst str_nat.simps) (simp add: nat_of_digits_def)
  next
    case False
    have "n mod 10 < 10" by simp
    from digit_char_cases [OF this] "1.IH" [OF False] False show ?thesis
      by (subst str_nat.simps) (simp add: nat_of_digits_snoc)
  qed
qed

lemma str_nat_no_minus: "CHR ''-'' \<notin> set (str_nat n)"
proof (induction n rule: str_nat.induct)
  case (1 n)
  show ?case
  proof (cases "n < 10")
    case True
    with digit_char_cases [OF True] show ?thesis
      by (subst str_nat.simps) auto
  next
    case False
    have "n mod 10 < 10" by simp
    from digit_char_cases [OF this] "1.IH" [OF False] False show ?thesis
      by (subst str_nat.simps) auto
  qed
qed

lemma str_nat_inj: "str_nat m = str_nat n \<Longrightarrow> m = n"
  by (metis nat_of_digits_str_nat)

lemma str_int_inj: "inj str_int"
proof (rule injI)
  fix i j :: int
  assume eq: "str_int i = str_int j"
  show "i = j"
  proof (cases "i < 0"; cases "j < 0")
    assume "i < 0" "j < 0"
    with eq have "str_nat (nat (- i)) = str_nat (nat (- j))" by (simp add: str_int_def)
    from str_nat_inj [OF this] \<open>i < 0\<close> \<open>j < 0\<close> show ?thesis by simp
  next
    assume "i < 0" "\<not> j < 0"
    with eq have "CHR ''-'' # str_nat (nat (- i)) = str_nat (nat j)"
      by (simp add: str_int_def)
    then have "CHR ''-'' \<in> set (str_nat (nat j))"
      by (metis list.set_intros(1))
    with str_nat_no_minus show ?thesis by blast
  next
    assume "\<not> i < 0" "j < 0"
    with eq have "str_nat (nat i) = CHR ''-'' # str_nat (nat (- j))"
      by (simp add: str_int_def)
    then have "CHR ''-'' \<in> set (str_nat (nat i))"
      by (metis list.set_intros(1))
    with str_nat_no_minus show ?thesis by blast
  next
    assume "\<not> i < 0" "\<not> j < 0"
    with eq have "str_nat (nat i) = str_nat (nat j)" by (simp add: str_int_def)
    from str_nat_inj [OF this] \<open>\<not> i < 0\<close> \<open>\<not> j < 0\<close> show ?thesis by simp
  qed
qed

text \<open>
  Claim C9: an identifier that is not a string becomes a path component that is
  stable across runs and is not a hash of the runtime.  The code breaks this for
  the children of a \<^verbatim>\<open>ResultClient\<close> (and in the cache keys of a
  \<^verbatim>\<open>TransformationResult\<close>): the component is the decimal text of
  \<^verbatim>\<open>hash(item)\<close>, and since that text determines the number, two runs whose
  hash functions differ on the identifier give two different components.
\<close>

theorem to_path_component_runtime_hash:
  "to_path_component hash str ResultClient (Obj x) = str_int (hash x)
   \<and> to_path_component hash str TransformationResult (Obj x) = str_int (hash x)
   \<and> inj str_int"
  by (simp add: str_int_inj)

subsection \<open>Division\<close>

text \<open>
  Claim C10: \<^verbatim>\<open>node / item\<close> returns what \<^verbatim>\<open>node[item]\<close> returns, for
  every container and every identifier; on an \<^verbatim>\<open>ExtensionResult\<close> that is the
  indexing of that class, on the other classes the indexing of the base class.
\<close>

theorem truediv_getitem:
  "truediv contains load hash str h a item = getitem contains load hash str h a item
   \<and> (cls (h ! a) = ExtensionResult \<longrightarrow>
        truediv contains load hash str h a item = ExtensionResult_getitem load h a item)
   \<and> (cls (h ! a) \<noteq> ExtensionResult \<longrightarrow>
        truediv contains load hash str h a item
          = ResultContainer_getitem contains load hash str h a item)"
  by (simp add: truediv_def getitem_def)

theorem truediv_getitem_witness:
  "cls (after_chain ! 3) = ExtensionResult
   \<and> truediv nothing_stored nothing_to_load (\<lambda>u. 0) (\<lambda>u. ''None'') after_chain 3 (Str ''out.nc'')
       = ExtensionResult_getitem nothing_to_load after_chain 3 (Str ''out.nc'')
   \<and> cls (after_chain ! 0) \<noteq> ExtensionResult
   \<and> truediv nothing_stored nothing_to_load (\<lambda>u. 0) (\<lambda>u. ''None'') after_chain 0 (Str ''t1'')
       = (Inr (Container 1), after_chain)
   \<and> getitem nothing_stored nothing_to_load (\<lambda>u. 0) (\<lambda>u. ''None'') after_chain 0 (Str ''t1'')
       = (Inr (Container 1), after_chain)"
proof -
  have e: "cls (after_chain ! 3) = ExtensionResult"
    by (simp add: after_chain_eq eval_nat_numeral)
  have r: "cls (after_chain ! 0) \<noteq> ExtensionResult"
    by (simp add: after_chain_eq)
  have g: "getitem nothing_stored nothing_to_load (\<lambda>u. 0) (\<lambda>u. ''None'') after_chain 0 (Str ''t1'')
       = (Inr (Container 1), after_chain)"
    by (simp add: after_chain_eq getitem_def ResultContainer_getitem_def nothing_stored_def
        memory_contains_def exists_def Let_def)
  from truediv_getitem [of nothing_stored nothing_to_load "\<lambda>u. 0" "\<lambda>u. ''None''" after_chain 3
      "Str ''out.nc''"]
    truediv_getitem [of nothing_stored nothing_to_load "\<lambda>u. 0" "\<lambda>u. ''None''" after_chain 0
      "Str ''t1''"] e r g
  show ?thesis by metis
qed

end
